theory Spec2Isabelle
  imports Main "HOL-Library.AList" "HOL-Library.Sublist"
begin

section \<open>Regular expressions as the script engine runs them\<close>

text \<open>
  \<^verbatim>\<open>.github/libs/GithubUtils.js\<close> reads the checklist with JavaScript regular
  expressions. They are embedded as a datatype and run by a backtracking matcher that
  lists every way of matching a prefix of the input, in the engine's order of
  preference: a quantifier is greedy, the left alternative comes first, and an
  iteration of \<open>*\<close> that consumes nothing is rejected.

  Strings are lists of 8-bit characters; every pattern of the source is ASCII.
  A match state is the text still to be read together with the captures made so far,
  the latest first.
\<close>

datatype regex =
    Eps
  | Chr char
  | Dot
  | Cls "char list"
  | Seq regex regex
  | Alt regex regex
  | Opt regex
  | Star regex
  | Grp nat regex

type_synonym captures = "(nat \<times> string) list"
type_synonym mstate = "string \<times> captures"

definition CR :: char where "CR = CHR 0x0D"
definition LF :: char where "LF = CHR 0x0A"

text \<open>The dot matches every character but a line terminator.\<close>

definition lineTerminator :: "char \<Rightarrow> bool" where
  "lineTerminator c = (c = LF \<or> c = CR)"

function rmatch :: "regex \<Rightarrow> mstate \<Rightarrow> mstate list" where
  "rmatch Eps (s, cs) = [(s, cs)]"
| "rmatch (Chr c) (s, cs) =
     (case s of [] \<Rightarrow> [] | x # xs \<Rightarrow> if x = c then [(xs, cs)] else [])"
| "rmatch Dot (s, cs) =
     (case s of [] \<Rightarrow> [] | x # xs \<Rightarrow> if lineTerminator x then [] else [(xs, cs)])"
| "rmatch (Cls M) (s, cs) =
     (case s of [] \<Rightarrow> [] | x # xs \<Rightarrow> if x \<in> set M then [(xs, cs)] else [])"
| "rmatch (Seq a b) (s, cs) = concat (map (rmatch b) (rmatch a (s, cs)))"
| "rmatch (Alt a b) (s, cs) = rmatch a (s, cs) @ rmatch b (s, cs)"
| "rmatch (Opt a) (s, cs) = rmatch a (s, cs) @ [(s, cs)]"
| "rmatch (Star a) (s, cs) =
     concat (map (\<lambda>st'. if length (fst st') < length s then rmatch (Star a) st' else [])
                 (rmatch a (s, cs))) @ [(s, cs)]"
| "rmatch (Grp i a) (s, cs) =
     map (\<lambda>st'. (fst st', (i, take (length s - length (fst st')) s) # snd st'))
         (rmatch a (s, cs))"
  by pat_completeness auto
termination
  by (relation "measures [\<lambda>(r, st). size r, \<lambda>(r, st). length (fst st)]") auto

text \<open>A literal text, a sequence of patterns, \<open>r+\<close>, and the classes \<open>[0-9]\<close> and \<open>\s\<close>.\<close>

definition seqs :: "regex list \<Rightarrow> regex" where
  "seqs rs = foldr Seq rs Eps"

definition str :: "string \<Rightarrow> regex" where
  "str s = seqs (map Chr s)"

definition Plus :: "regex \<Rightarrow> regex" where
  "Plus a = Seq a (Star a)"

definition digits :: "char list" where
  "digits = ''0123456789''"

definition whitespace :: "char list" where
  "whitespace = [CHR 0x09, CHR 0x0A, CHR 0x0B, CHR 0x0C, CHR 0x0D, CHR 0x20, CHR 0xA0]"

text \<open>
  An unanchored search tries every start position from the left and keeps the preferred
  match of the first position that has one. The result is the text before the match,
  the matched text, the captures and the text after the match.
\<close>

type_synonym found = "string \<times> string \<times> captures \<times> string"

fun search :: "regex \<Rightarrow> string \<Rightarrow> string \<Rightarrow> found option" where
  "search r pre s =
     (case rmatch r (s, []) of
        st # _ \<Rightarrow> Some (pre, take (length s - length (fst st)) s, snd st, fst st)
      | [] \<Rightarrow> (case s of [] \<Rightarrow> None | x # xs \<Rightarrow> search r (pre @ [x]) xs))"

lemma rmatch_suffix:
  "(s', cs') \<in> set (rmatch r (s, cs)) \<Longrightarrow> \<exists>p. s = p @ s'"
proof (induction r "(s, cs)" arbitrary: s cs s' cs' rule: rmatch.induct)
  case (5 a b s cs)
  then obtain t ct where m: "(t, ct) \<in> set (rmatch a (s, cs))" "(s', cs') \<in> set (rmatch b (t, ct))"
    by auto
  from "5.hyps"(1)[OF m(1)] obtain p where p: "s = p @ t" by blast
  from "5.hyps"(2)[OF m(1) m(2)] obtain q where "t = q @ s'" by blast
  with p show ?case by simp
next
  case (8 a s cs)
  show ?case
  proof (cases "(s', cs') = (s, cs)")
    case True then show ?thesis by simp
  next
    case False
    with "8.prems" obtain t ct where m: "(t, ct) \<in> set (rmatch a (s, cs))"
      "length t < length s" "(s', cs') \<in> set (rmatch (Star a) (t, ct))"
      by (auto split: if_splits)
    from "8.hyps"(1)[OF m(1)] obtain p where p: "s = p @ t" by blast
    have "length (fst (t, ct)) < length s" using m(2) by simp
    from "8.hyps"(2)[OF m(1) this m(3)] obtain q where "t = q @ s'" by blast
    with p show ?thesis by simp
  qed
next
  case (2 c s cs) then show ?case by (cases s) (auto split: if_splits)
next
  case (3 s cs) then show ?case by (cases s) (auto split: if_splits)
next
  case (4 M s cs) then show ?case by (cases s) (auto split: if_splits)
next
  case (6 a b s cs) then show ?case by auto
next
  case (7 a s cs) then show ?case by auto
next
  case (9 i a s cs) then show ?case by auto
qed simp

lemma rmatch_length: "(s', cs') \<in> set (rmatch r (s, cs)) \<Longrightarrow> length s' \<le> length s"
  using rmatch_suffix[of s' cs' r s cs] by auto

lemma search_decomp:
  "search r pre s = Some (p, m, cs, rest) \<Longrightarrow> pre @ s = p @ m @ rest"
proof (induction r pre s rule: search.induct)
  case (1 r pre s)
  show ?case
  proof (cases "rmatch r (s, [])")
    case Nil
    with "1.prems" "1.IH" show ?thesis by (cases s) auto
  next
    case (Cons st sts)
    then have "(fst st, snd st) \<in> set (rmatch r (s, []))" by simp
    from rmatch_suffix[OF this] obtain q where q: "s = q @ fst st" by auto
    from Cons "1.prems" have "p = pre" "rest = fst st" "m = take (length s - length (fst st)) s"
      by auto
    with q show ?thesis by simp
  qed
qed

text \<open>
  \<open>matchAll\<close> and \<open>match\<close> with the \<open>g\<close> flag resume the search where the last match
  ended, one character further after an empty match.
\<close>

function match_all :: "regex \<Rightarrow> string \<Rightarrow> (string \<times> captures) list" where
  "match_all r s =
     (case search r [] s of
        None \<Rightarrow> []
      | Some (pre, m, cs, rest) \<Rightarrow>
          (m, cs) # (if m = [] then (case rest of [] \<Rightarrow> [] | _ # t \<Rightarrow> match_all r t)
                     else match_all r rest))"
  by pat_completeness auto
termination
proof (relation "measure (\<lambda>(r, s). length s)", goal_cases)
  case 1 show ?case by simp
next
  case (2 r s x2 pre y m z cs rest x t)
  then have "search r [] s = Some (pre, m, cs, rest)" by simp
  from search_decomp[OF this] 2 show ?case by auto
next
  case (3 r s x2 pre y m z cs rest)
  then have "search r [] s = Some (pre, m, cs, rest)" by simp
  from search_decomp[OF this] 3 show ?case by auto
qed

text \<open>\<open>String.prototype.match\<close> without the \<open>g\<close> flag: the array of the matched text and
  every group of the pattern (an unset group is \<open>undefined\<close>), or \<open>null\<close>.\<close>

fun ngroups :: "regex \<Rightarrow> nat" where
  "ngroups (Grp i a) = max i (ngroups a)"
| "ngroups (Seq a b) = max (ngroups a) (ngroups b)"
| "ngroups (Alt a b) = max (ngroups a) (ngroups b)"
| "ngroups (Opt a) = ngroups a"
| "ngroups (Star a) = ngroups a"
| "ngroups _ = 0"

definition match_array :: "regex \<Rightarrow> string \<Rightarrow> string option list option" where
  "match_array r s =
     (case search r [] s of
        None \<Rightarrow> None
      | Some (pre, m, cs, rest) \<Rightarrow> Some (Some m # map (map_of cs) [1 ..< Suc (ngroups r)]))"

definition test :: "regex \<Rightarrow> string \<Rightarrow> bool" where
  "test r s = (search r [] s \<noteq> None)"


section \<open>Helpers of the script language and of underscore\<close>

text \<open>
  \<open>Number.parseInt(s, 10)\<close> is only ever applied to the capture of a \<open>[0-9]+\<close> group.
  Numbers are natural numbers: the script's doubles are exact below \<open>2^53\<close>, far above
  any pull request number.
\<close>

definition digitValue :: "char \<Rightarrow> nat" where
  "digitValue c = of_char c - 48"

definition parseInt :: "string \<Rightarrow> nat" where
  "parseInt s = foldl (\<lambda>n c. 10 * n + digitValue c) 0 s"

definition isSpace :: "char \<Rightarrow> bool" where
  "isSpace c = (c \<in> set whitespace)"

definition trim :: "string \<Rightarrow> string" where
  "trim s = rev (dropWhile isSpace (rev (dropWhile isSpace s)))"

text \<open>\<open>s.split('-')[0]\<close>: the text before the first hyphen (all of it when there is none).\<close>

definition splitFirst :: "char \<Rightarrow> string \<Rightarrow> string" where
  "splitFirst c s = takeWhile (\<lambda>x. x \<noteq> c) s"

text \<open>A group of a match; a group that took no part reads as the empty text here (every
  group the source reads takes part in every match of its pattern).\<close>

definition capture :: "captures \<Rightarrow> nat \<Rightarrow> string" where
  "capture cs i = (case map_of cs i of Some t \<Rightarrow> t | None \<Rightarrow> [])"

text \<open>\<open>_.unique\<close> keeps the first occurrence of every element, \<open>_.difference\<close> and
  \<open>_.union\<close> keep the order of their first argument, \<open>_.sortBy\<close> is a stable sort.\<close>

definition unique :: "'a list \<Rightarrow> 'a list" where
  "unique xs = foldl (\<lambda>acc x. if x \<in> set acc then acc else acc @ [x]) [] xs"

definition difference :: "'a list \<Rightarrow> 'a list \<Rightarrow> 'a list" where
  "difference xs ys = filter (\<lambda>x. x \<notin> set ys) xs"

definition union :: "'a list \<Rightarrow> 'a list \<Rightarrow> 'a list" where
  "union xs ys = unique (xs @ ys)"

definition contains :: "'a list \<Rightarrow> 'a \<Rightarrow> bool" where
  "contains xs x = (x \<in> set xs)"

definition sortBy :: "('a \<Rightarrow> nat) \<Rightarrow> 'a list \<Rightarrow> 'a list" where
  "sortBy f xs = sort_key f xs"

definition first :: "'a list \<Rightarrow> 'a option" where
  "first xs = (case xs of [] \<Rightarrow> None | x # _ \<Rightarrow> Some x)"

section \<open>The patterns of GithubUtils.js\<close>

definition GITHUB_BASE_URL_REGEX :: regex where
  "GITHUB_BASE_URL_REGEX =
     seqs [str ''http'', Opt (Chr CHR ''s''), str ''://'',
           Alt (str ''github.com'') (str ''api.github.com'')]"

text \<open>
  The three URL patterns are spliced into the line patterns below, where their group is
  no longer the first one; the number of the group is therefore a parameter.
\<close>

definition PULL_REQUEST_SOURCE :: "nat \<Rightarrow> regex" where
  "PULL_REQUEST_SOURCE g =
     seqs [GITHUB_BASE_URL_REGEX, Chr CHR ''/'', Star Dot, Chr CHR ''/'', Star Dot,
           str ''/pull/'', Grp g (Plus (Cls digits)), Star Dot]"

definition ISSUE_SOURCE :: "nat \<Rightarrow> regex" where
  "ISSUE_SOURCE g =
     seqs [GITHUB_BASE_URL_REGEX, Chr CHR ''/'', Star Dot, Chr CHR ''/'', Star Dot,
           str ''/issues/'', Grp g (Plus (Cls digits)), Star Dot]"

definition ISSUE_OR_PULL_REQUEST_SOURCE :: "nat \<Rightarrow> regex" where
  "ISSUE_OR_PULL_REQUEST_SOURCE g =
     seqs [GITHUB_BASE_URL_REGEX, Chr CHR ''/'', Star Dot, Chr CHR ''/'', Star Dot,
           Chr CHR ''/'', Alt (str ''pull'') (str ''issues''), Chr CHR ''/'',
           Grp g (Plus (Cls digits)), Star Dot]"

definition PULL_REQUEST_REGEX :: regex where
  "PULL_REQUEST_REGEX = PULL_REQUEST_SOURCE 1"

definition ISSUE_REGEX :: regex where
  "ISSUE_REGEX = ISSUE_SOURCE 1"

definition ISSUE_OR_PULL_REQUEST_REGEX :: regex where
  "ISSUE_OR_PULL_REQUEST_REGEX = ISSUE_OR_PULL_REQUEST_SOURCE 1"

text \<open>\<open>([0-9]+)\.([0-9]+)\.([0-9]+)(?:-([0-9]+))?\<close>\<close>

definition versionRegex :: regex where
  "versionRegex =
     seqs [Grp 1 (Plus (Cls digits)), Chr CHR ''.'', Grp 2 (Plus (Cls digits)), Chr CHR ''.'',
           Grp 3 (Plus (Cls digits)), Opt (Seq (Chr CHR ''-'') (Grp 4 (Plus (Cls digits))))]"

text \<open>\<open>pull requests:\*\*\r?\n((?:-.*\r?\n)+)\r?\n\r?\n?\<close>\<close>

definition PR_LIST_SECTION :: regex where
  "PR_LIST_SECTION =
     seqs [str ''pull requests:**'', Opt (Chr CR), Chr LF,
           Grp 1 (Plus (seqs [Chr CHR ''-'', Star Dot, Opt (Chr CR), Chr LF])),
           Opt (Chr CR), Chr LF, Opt (Chr CR), Opt (Chr LF)]"

text \<open>\<open>Deploy Blockers:\*\*\r?\n((?:-.*\r?\n)+)\<close>\<close>

definition DEPLOY_BLOCKER_SECTION :: regex where
  "DEPLOY_BLOCKER_SECTION =
     seqs [str ''Deploy Blockers:**'', Opt (Chr CR), Chr LF,
           Grp 1 (Plus (seqs [Chr CHR ''-'', Star Dot, Opt (Chr CR), Chr LF]))]"

text \<open>\<open>Internal QA:\*\*\r?\n((?:- \[[ x]].*\r?\n)+)\<close>\<close>

definition INTERNAL_QA_SECTION :: regex where
  "INTERNAL_QA_SECTION =
     seqs [str ''Internal QA:**'', Opt (Chr CR), Chr LF,
           Grp 1 (Plus (seqs [str ''- ['', Cls '' x'', Chr CHR '']'', Star Dot,
                              Opt (Chr CR), Chr LF]))]"

text \<open>The line patterns: \<open>- \[([ x])] (PULL_REQUEST)\<close> for the pull request list,
  \<open>- \[([ x])]\s(ISSUE_OR_PULL_REQUEST)\<close> for the deploy blockers and
  \<open>- \[([ x])]\s(PULL_REQUEST)\<close> for the internal QA list.\<close>

definition PR_LINE :: regex where
  "PR_LINE = seqs [str ''- ['', Grp 1 (Cls '' x''), str ''] '', Grp 2 (PULL_REQUEST_SOURCE 3)]"

definition DEPLOY_BLOCKER_LINE :: regex where
  "DEPLOY_BLOCKER_LINE =
     seqs [str ''- ['', Grp 1 (Cls '' x''), Chr CHR '']'', Cls whitespace,
           Grp 2 (ISSUE_OR_PULL_REQUEST_SOURCE 3)]"

definition INTERNAL_QA_LINE :: regex where
  "INTERNAL_QA_LINE =
     seqs [str ''- ['', Grp 1 (Cls '' x''), Chr CHR '']'', Cls whitespace,
           Grp 2 (PULL_REQUEST_SOURCE 3)]"

text \<open>The three verification check boxes.\<close>

definition TIMING_DASHBOARD_CHECKED :: regex where
  "TIMING_DASHBOARD_CHECKED =
     seqs [Chr CHR ''-'', Cls whitespace, str ''[x]'', Cls whitespace,
           str ''I checked the [App Timing Dashboard]'']"

definition FIREBASE_CHECKED :: regex where
  "FIREBASE_CHECKED =
     seqs [Chr CHR ''-'', Cls whitespace, str ''[x]'', Cls whitespace,
           str ''I checked [Firebase Crashlytics]'']"

definition GH_STATUS_CHECKED :: regex where
  "GH_STATUS_CHECKED =
     seqs [Chr CHR ''-'', Cls whitespace, str ''[x]'', Cls whitespace,
           str ''I checked [GitHub Status]'']"

text \<open>\<open>\[No\s?QA]\<close> with the flag \<open>i\<close>: each letter in either case.\<close>

definition NO_QA :: regex where
  "NO_QA =
     seqs [Chr CHR ''['', Cls ''nN'', Cls ''oO'', Opt (Cls whitespace), Cls ''qQ'', Cls ''aA'',
           Chr CHR '']'']"

section \<open>Data\<close>

text \<open>
  The objects of the script are records. Several of them share the fields \<open>url\<close> and
  \<open>number\<close> (an entry of a list, an issue, a pull request, the parsed checklist), and
  the platform's issues and pull requests share \<open>title\<close> and \<open>labels\<close>; the shared fields
  are declared once and extended. A label is represented by its name.
\<close>

record linked =
  url :: string
  number :: nat

record pr_entry = linked +
  isVerified :: bool

record resolvable_entry = linked +
  isResolved :: bool

record issue_head = linked +
  title :: string
  labels :: "string list"

record issue = issue_head +
  body :: string

record pull_request = issue_head +
  html_url :: string
  merged_by :: "string option"

record staging_deploy_cash = issue_head +
  PRList :: "pr_entry list"
  deployBlockers :: "resolvable_entry list"
  internalQAPRList :: "resolvable_entry list"
  isTimingDashboardChecked :: bool
  isFirebaseChecked :: bool
  isGHStatusChecked :: bool
  tag :: string

text \<open>\<open>CONST.js\<close> is not among the sources: its values are parameters.\<close>

record const_values =
  GITHUB_OWNER :: string
  APP_REPO :: string
  STAGING_DEPLOY :: string
  INTERNAL_QA :: string

text \<open>
  Every way the script fails is a value: the two errors of the lookup (code 404 and
  code 500), the error of a checklist without the expected data, the three errors of the
  URL parsers, a property read on \<open>null\<close> or \<open>undefined\<close>, and the failures of the
  remote platform.
\<close>

datatype error =
    NotFound
  | AmbiguousState
  | MalformedTicket
  | NotAPullRequest string
  | NotAnIssue string
  | NotAnIssueOrPullRequest string
  | TypeError
  | RateLimitExceeded
  | AbuseDetected
  | TransportFailure

section \<open>Numbers from URLs\<close>

text \<open>
  \<open>URL.match(PATTERN)\<close> is the array of the match and its one group, or \<open>null\<close>; the
  source raises unless it is an array of length 2. The group takes part in every match.
\<close>

definition getPullRequestNumberFromURL :: "string \<Rightarrow> error + nat" where
  "getPullRequestNumberFromURL URL =
     (case match_array PULL_REQUEST_REGEX URL of
        Some [_, Some n] \<Rightarrow> Inr (parseInt n)
      | _ \<Rightarrow> Inl (NotAPullRequest URL))"

definition getIssueNumberFromURL :: "string \<Rightarrow> error + nat" where
  "getIssueNumberFromURL URL =
     (case match_array ISSUE_REGEX URL of
        Some [_, Some n] \<Rightarrow> Inr (parseInt n)
      | _ \<Rightarrow> Inl (NotAnIssue URL))"

definition getIssueOrPullRequestNumberFromURL :: "string \<Rightarrow> error + nat" where
  "getIssueOrPullRequestNumberFromURL URL =
     (case match_array ISSUE_OR_PULL_REQUEST_REGEX URL of
        Some [_, Some n] \<Rightarrow> Inr (parseInt n)
      | _ \<Rightarrow> Inl (NotAnIssueOrPullRequest URL))"

section \<open>Reading the checklist\<close>

definition getStagingDeployCashPRList :: "string \<Rightarrow> pr_entry list" where
  "getStagingDeployCashPRList issue_body =
     (case match_array PR_LIST_SECTION issue_body of
        Some [_, Some PRListSection] \<Rightarrow>
          sortBy number
            (map (\<lambda>(m, cs). \<lparr>url = capture cs 2, number = parseInt (capture cs 3),
                              isVerified = (capture cs 1 = ''x'')\<rparr>)
                 (match_all PR_LINE PRListSection))
      | _ \<Rightarrow> [])"

definition getStagingDeployCashDeployBlockers :: "string \<Rightarrow> resolvable_entry list" where
  "getStagingDeployCashDeployBlockers issue_body =
     (case match_array DEPLOY_BLOCKER_SECTION issue_body of
        Some [_, Some deployBlockerSection] \<Rightarrow>
          sortBy number
            (map (\<lambda>(m, cs). \<lparr>url = capture cs 2, number = parseInt (capture cs 3),
                              isResolved = (capture cs 1 = ''x'')\<rparr>)
                 (match_all DEPLOY_BLOCKER_LINE deployBlockerSection))
      | _ \<Rightarrow> [])"

definition getStagingDeployCashInternalQA :: "string \<Rightarrow> resolvable_entry list" where
  "getStagingDeployCashInternalQA issue_body =
     (case match_array INTERNAL_QA_SECTION issue_body of
        Some [_, Some internalQASection] \<Rightarrow>
          sortBy number
            (map (\<lambda>(m, cs). \<lparr>url = trim (splitFirst CHR ''-'' (capture cs 2)),
                              number = parseInt (capture cs 3),
                              isResolved = (capture cs 1 = ''x'')\<rparr>)
                 (match_all INTERNAL_QA_LINE internalQASection))
      | _ \<Rightarrow> [])"

text \<open>
  \<open>getStagingDeployCashData\<close>: everything happens inside one \<open>try\<close>, and whatever is
  raised there is replaced by the one error of a checklist without the expected data.
  Two steps can raise: \<open>issue.body.match(versionRegex)[0]\<close> when there is no match, and
  \<open>getIssueOrPullRequestNumberFromURL(issue.url)\<close>.
\<close>

definition getStagingDeployCashData :: "issue \<Rightarrow> error + staging_deploy_cash" where
  "getStagingDeployCashData issue =
     (case map fst (match_all versionRegex (body issue)) of
        [] \<Rightarrow> Inl MalformedTicket
      | v # _ \<Rightarrow>
          (case getIssueOrPullRequestNumberFromURL (url issue) of
             Inl _ \<Rightarrow> Inl MalformedTicket
           | Inr n \<Rightarrow>
               Inr \<lparr>url = url issue, number = n, title = title issue, labels = labels issue,
                    PRList = getStagingDeployCashPRList (body issue),
                    deployBlockers = getStagingDeployCashDeployBlockers (body issue),
                    internalQAPRList = getStagingDeployCashInternalQA (body issue),
                    isTimingDashboardChecked = test TIMING_DASHBOARD_CHECKED (body issue),
                    isFirebaseChecked = test FIREBASE_CHECKED (body issue),
                    isGHStatusChecked = test GH_STATUS_CHECKED (body issue),
                    tag = filter (\<lambda>c. c \<noteq> CHR 0x60) v\<rparr>))"

text \<open>
  \<open>getStagingDeployCash\<close> asks the platform for the open issues that carry the label and
  insists on exactly one. The platform's answer is a failure or the list of issues.
\<close>

type_synonym issues_api = "string \<Rightarrow> string \<Rightarrow> error + issue list"

definition getStagingDeployCash :: "const_values \<Rightarrow> issues_api \<Rightarrow> error + staging_deploy_cash" where
  "getStagingDeployCash C listForRepo =
     (case listForRepo (STAGING_DEPLOY C) ''open'' of
        Inl e \<Rightarrow> Inl e
      | Inr data \<Rightarrow>
          if length data = 0 then Inl NotFound
          else if length data > 1 then Inl AmbiguousState
          else getStagingDeployCashData (data ! 0))"

text \<open>The platform's listing of a repository's issues by label and state; a ticket of
  the repository is an issue together with its state.\<close>

definition platform :: "(string \<times> issue) list \<Rightarrow> issues_api" where
  "platform tickets label st =
     Inr (map snd (filter (\<lambda>t. label \<in> set (labels (snd t)) \<and> fst t = st) tickets))"


section \<open>Fetching pull requests\<close>

text \<open>
  \<open>octokit.pulls.list\<close> is asked with the parameters below. The remote answers a listing
  with a sequence of pages, one page per request, and a request can fail; the last page
  carries no link to a next one. \<open>paginate\<close> requests the pages in order: it hands every
  page to the callback together with \<open>done\<close>, appends what the callback returns, and
  stops when the callback has called \<open>done\<close>, when a request fails, or when there is no
  next page. Its result is paired with the number of requests it has issued.
\<close>

record list_parameters =
  owner :: string
  repo :: string
  state :: string
  sort :: string
  direction :: string
  per_page :: nat

type_synonym 'a pages = "(error + 'a list) list"
type_synonym pulls_api = "list_parameters \<Rightarrow> pull_request pages"

fun paginate :: "'b list \<Rightarrow> 'a pages \<Rightarrow> ('a list \<Rightarrow> 'b list \<times> bool) \<Rightarrow> (error + 'b list) \<times> nat" where
  "paginate results [] mapFn = (Inr results, 0)"
| "paginate results (Inl e # next) mapFn = (Inl e, 1)"
| "paginate results (Inr data # next) mapFn =
     (if snd (mapFn data) then (Inr (results @ fst (mapFn data)), 1)
      else (case paginate (results @ fst (mapFn data)) next mapFn of (r, n) \<Rightarrow> (r, Suc n)))"

text \<open>
  \<open>fetchAllPullRequests\<close>: the callback keeps every page and calls \<open>done\<close> when the page
  holds the oldest requested number (\<open>undefined\<close> for an empty request, which no number
  equals). A failure is caught and written to the console, and the promise resolves to
  \<open>undefined\<close>, here \<open>None\<close>; it is never rejected, which would be \<open>Inl\<close>.
\<close>

definition fetchAllPullRequests ::
  "const_values \<Rightarrow> pulls_api \<Rightarrow> nat list \<Rightarrow> (error + pull_request list option) \<times> nat" where
  "fetchAllPullRequests C pulls_list pullRequestNumbers =
     (let oldestPR = first (sortBy (\<lambda>n. n) pullRequestNumbers) in
      case paginate []
             (pulls_list \<lparr>owner = GITHUB_OWNER C, repo = APP_REPO C, state = ''all'',
                          sort = ''created'', direction = ''desc'', per_page = 100\<rparr>)
             (\<lambda>data. (data, find (\<lambda>pr. Some (number pr) = oldestPR) data \<noteq> None)) of
        (Inr prList, requests) \<Rightarrow>
          (Inr (Some (filter (\<lambda>pr. contains pullRequestNumbers (number pr)) prList)), requests)
      | (Inl err, requests) \<Rightarrow> (Inr None, requests))"

section \<open>Writing the checklist\<close>

text \<open>
  An object used as a map is a list of keys and values in the order of insertion;
  assigning to a key that exists keeps its place. The script language enumerates the keys
  that are array indices first, in ascending order, and the other keys in the order of
  insertion; \<open>_.keys\<close>, \<open>_.values\<close> and \<open>_.each\<close> all follow that enumeration.
\<close>

type_synonym 'v object = "(string \<times> 'v) list"

definition isArrayIndex :: "string \<Rightarrow> bool" where
  "isArrayIndex k =
     (k \<noteq> [] \<and> list_all (\<lambda>c. c \<in> set digits) k \<and> (k = ''0'' \<or> hd k \<noteq> CHR ''0'')
      \<and> parseInt k < 2 ^ 32 - 1)"

definition entries :: "'v object \<Rightarrow> (string \<times> 'v) list" where
  "entries obj =
     sort_key (\<lambda>kv. parseInt (fst kv)) (filter (\<lambda>kv. isArrayIndex (fst kv)) obj)
     @ filter (\<lambda>kv. \<not> isArrayIndex (fst kv)) obj"

definition keys :: "'v object \<Rightarrow> string list" where
  "keys obj = map fst (entries obj)"

definition valuesOf :: "'v object \<Rightarrow> 'v list" where
  "valuesOf obj = map snd (entries obj)"

text \<open>A function that can raise, applied to every element of a list: the first error
  ends it. \<open>_.sortBy\<close> computes the criterion of every element before it sorts.\<close>

fun mapE :: "('a \<Rightarrow> error + 'b) \<Rightarrow> 'a list \<Rightarrow> error + 'b list" where
  "mapE f [] = Inr []"
| "mapE f (x # xs) =
     (case f x of
        Inl e \<Rightarrow> Inl e
      | Inr y \<Rightarrow> (case mapE f xs of Inl e \<Rightarrow> Inl e | Inr ys \<Rightarrow> Inr (y # ys)))"

definition criterion :: "('a \<Rightarrow> error + nat) \<Rightarrow> 'a \<Rightarrow> nat" where
  "criterion f x = (case f x of Inr n \<Rightarrow> n | Inl _ \<Rightarrow> 0)"

definition sortByE :: "('a \<Rightarrow> error + nat) \<Rightarrow> 'a list \<Rightarrow> error + 'a list" where
  "sortByE f xs =
     (case mapE f xs of Inl e \<Rightarrow> Inl e | Inr _ \<Rightarrow> Inr (sortBy (criterion f) xs))"

text \<open>
  The map from the URL of every fetched pull request that carries the internal QA label
  to the login of who merged it. \<open>pr.merged_by.login\<close> raises when \<open>merged_by\<close> is \<open>null\<close>.
\<close>

definition internalQAPRMap :: "const_values \<Rightarrow> pull_request list \<Rightarrow> error + string object" where
  "internalQAPRMap C data =
     foldl (\<lambda>acc pr.
              case acc of
                Inl e \<Rightarrow> Inl e
              | Inr m \<Rightarrow>
                  (case merged_by pr of
                     None \<Rightarrow> Inl TypeError
                   | Some login \<Rightarrow> Inr (AList.update (html_url pr) login m)))
           (Inr [])
           (filter (\<lambda>pr. INTERNAL_QA C \<in> set (labels pr)) data)"

definition noQAPRs :: "pull_request list \<Rightarrow> string list" where
  "noQAPRs data = map html_url (filter (\<lambda>PR. test NO_QA (title PR)) data)"

definition checkbox :: "bool \<Rightarrow> string" where
  "checkbox checked = (if checked then ''- [x]'' else ''- [ ]'')"

definition CRLF :: string where
  "CRLF = [CR, LF]"

text \<open>The four parts of the body that depend on the lists, and the fixed end.\<close>

definition headerText :: "string \<Rightarrow> string" where
  "headerText tag' =
     ''**Release Version:** `'' @ tag' @ ''`'' @ CRLF
     @ ''**Compare Changes:** https://github.com/Expensify/App/compare/production...staging''
     @ CRLF"

definition PRListText :: "string list \<Rightarrow> string list \<Rightarrow> string" where
  "PRListText sortedPRList verifiedOrNoQAPRs =
     (if sortedPRList = [] then []
      else CRLF @ ''**This release contains changes from the following pull requests:**'' @ CRLF
           @ concat (map (\<lambda>URL. checkbox (contains verifiedOrNoQAPRs URL) @ '' '' @ URL @ CRLF)
                         sortedPRList)
           @ CRLF @ CRLF)"

definition internalQAText :: "string object \<Rightarrow> string list \<Rightarrow> string" where
  "internalQAText internalQA resolvedInternalQAPRs =
     (if internalQA = [] then []
      else ''**Internal QA:**'' @ CRLF
           @ concat (map (\<lambda>(URL, merger).
                            checkbox (contains resolvedInternalQAPRs URL) @ '' '' @ URL
                            @ '' - '' @ (''@'' @ merger) @ CRLF)
                         (entries internalQA))
           @ CRLF @ CRLF)"

definition deployBlockersText :: "string list \<Rightarrow> string list \<Rightarrow> string list \<Rightarrow> string" where
  "deployBlockersText deployBlockers' sortedDeployBlockers resolvedDeployBlockers =
     (if deployBlockers' = [] then []
      else ''**Deploy Blockers:**'' @ CRLF
           @ concat (map (\<lambda>URL. checkbox (contains resolvedDeployBlockers URL) @ '' '' @ URL @ CRLF)
                         sortedDeployBlockers)
           @ CRLF @ CRLF)"

definition box :: "bool \<Rightarrow> string" where
  "box checked = (if checked then ''x'' else '' '')"

definition verificationsText :: "bool \<Rightarrow> bool \<Rightarrow> bool \<Rightarrow> string" where
  "verificationsText isTimingDashboardChecked' isFirebaseChecked' isGHStatusChecked' =
     ''**Deployer verifications:**''
     @ CRLF @ ''- ['' @ box isTimingDashboardChecked'
     @ ''] I checked the [App Timing Dashboard](https://graphs.expensify.com/grafana/d/yj2EobAGz/app-timing?orgId=1) and verified this release does not cause a noticeable performance regression.''
     @ CRLF @ ''- ['' @ box isFirebaseChecked'
     @ ''] I checked [Firebase Crashlytics](https://console.firebase.google.com/u/0/project/expensify-chat/crashlytics/app/android:com.expensify.chat/issues?state=open&time=last-seven-days&tag=all) and verified that this release does not introduce any new crashes. More detailed instructions on this verification can be found [here](https://stackoverflowteams.com/c/expensify/questions/15095/15096).''
     @ CRLF @ ''- ['' @ box isGHStatusChecked'
     @ ''] I checked [GitHub Status](https://www.githubstatus.com/) and verified there is no reported incident with Actions.''
     @ CRLF @ CRLF @ ''cc @Expensify/applauseleads'' @ CRLF"

record generated_issue =
  issueBody :: string
  issueAssignees :: "string list"

text \<open>The two sorted lists of the callback, \<open>sortedPRList\<close> and \<open>sortedDeployBlockers\<close>.\<close>

definition sortedPRList :: "string list \<Rightarrow> string object \<Rightarrow> error + string list" where
  "sortedPRList PRList' internalQA =
     sortByE getPullRequestNumberFromURL (unique (difference PRList' (keys internalQA)))"

definition sortedDeployBlockers :: "string list \<Rightarrow> error + string list" where
  "sortedDeployBlockers deployBlockers' =
     sortByE getIssueOrPullRequestNumberFromURL (unique deployBlockers')"

text \<open>
  The callback that runs on the fetched data. Whatever it raises is caught by the
  \<open>catch\<close> that ends \<open>generateStagingDeployCashBody\<close>.
\<close>

definition buildIssue ::
  "const_values \<Rightarrow> pull_request list \<Rightarrow> string \<Rightarrow> string list \<Rightarrow> string list \<Rightarrow> string list
     \<Rightarrow> string list \<Rightarrow> string list \<Rightarrow> bool \<Rightarrow> bool \<Rightarrow> bool \<Rightarrow> error + generated_issue" where
  "buildIssue C data tag' PRList' verifiedPRList deployBlockers' resolvedDeployBlockers
       resolvedInternalQAPRs isTimingDashboardChecked' isFirebaseChecked' isGHStatusChecked' =
     (case internalQAPRMap C data of
        Inl e \<Rightarrow> Inl e
      | Inr internalQA \<Rightarrow>
         (let verifiedOrNoQAPRs = union verifiedPRList (noQAPRs data) in
          case sortedPRList PRList' internalQA of
            Inl e \<Rightarrow> Inl e
          | Inr main \<Rightarrow>
             (case sortedDeployBlockers deployBlockers' of
                Inl e \<Rightarrow> Inl e
              | Inr blockers \<Rightarrow>
                  Inr \<lparr>issueBody =
                         headerText tag'
                         @ PRListText main verifiedOrNoQAPRs
                         @ internalQAText internalQA resolvedInternalQAPRs
                         @ deployBlockersText deployBlockers' blockers resolvedDeployBlockers
                         @ verificationsText isTimingDashboardChecked' isFirebaseChecked'
                             isGHStatusChecked',
                       issueAssignees = valuesOf internalQA\<rparr>)))"

text \<open>
  \<open>generateStagingDeployCashBody\<close>. The numbers of the listed URLs are computed before
  anything is fetched, outside every promise: a URL that is no pull request raises to the
  caller (\<open>Inl\<close>). The fetch resolves to the records or to \<open>undefined\<close>, and \<open>_.filter\<close>,
  \<open>_.reduce\<close> and \<open>_.pluck\<close> read \<open>undefined\<close> as the empty list. An error raised while
  the body is built is caught and written to the console, and the promise resolves to
  \<open>undefined\<close>, here \<open>Inr None\<close>.
\<close>

definition generateStagingDeployCashBody ::
  "const_values \<Rightarrow> pulls_api \<Rightarrow> string \<Rightarrow> string list \<Rightarrow> string list \<Rightarrow> string list
     \<Rightarrow> string list \<Rightarrow> string list \<Rightarrow> bool \<Rightarrow> bool \<Rightarrow> bool \<Rightarrow> error + generated_issue option" where
  "generateStagingDeployCashBody C pulls_list tag' PRList' verifiedPRList deployBlockers'
       resolvedDeployBlockers resolvedInternalQAPRs isTimingDashboardChecked' isFirebaseChecked'
       isGHStatusChecked' =
     (case mapE getPullRequestNumberFromURL PRList' of
        Inl e \<Rightarrow> Inl e
      | Inr pullRequestNumbers \<Rightarrow>
         (case fst (fetchAllPullRequests C pulls_list pullRequestNumbers) of
            Inl e \<Rightarrow> Inl e
          | Inr fetched \<Rightarrow>
             (case buildIssue C (case fetched of None \<Rightarrow> [] | Some data \<Rightarrow> data) tag' PRList'
                     verifiedPRList deployBlockers' resolvedDeployBlockers resolvedInternalQAPRs
                     isTimingDashboardChecked' isFirebaseChecked' isGHStatusChecked' of
                Inl e \<Rightarrow> Inr None
              | Inr generated \<Rightarrow> Inr (Some generated))))"

section \<open>Looking the checklist up\<close>

text \<open>
  C8. \<open>getStagingDeployCash\<close> fails with the error of code 404 when no open ticket
  carries the label, fails with the error of code 500 when two or more do, and returns
  what \<open>getStagingDeployCashData\<close> makes of the ticket when it is the only one.
\<close>

theorem getStagingDeployCash_one_ticket:
  "getStagingDeployCash C (platform tickets) =
     (case filter (\<lambda>t. STAGING_DEPLOY C \<in> set (labels (snd t)) \<and> fst t = ''open'') tickets of
        [] \<Rightarrow> Inl NotFound
      | [t] \<Rightarrow> getStagingDeployCashData (snd t)
      | _ # _ # _ \<Rightarrow> Inl AmbiguousState)"
  by (simp add: getStagingDeployCash_def platform_def split: list.splits)


section \<open>The paginated fetch\<close>

definition expensify :: const_values where
  "expensify = \<lparr>GITHUB_OWNER = ''Expensify'', APP_REPO = ''App'',
                 STAGING_DEPLOY = ''StagingDeployCash'', INTERNAL_QA = ''InternalQA''\<rparr>"

lemma first_sortBy_Min:
  assumes "xs \<noteq> []"
  shows "first (sortBy (\<lambda>n::nat. n) xs) = Some (Min (set xs))"
proof -
  let ?ys = "sort_key (\<lambda>n. n) xs"
  from assms have "?ys \<noteq> []" by (metis length_0_conv length_sort)
  then obtain y ys where ys: "?ys = y # ys" by (cases ?ys) auto
  have "sorted ?ys" using sorted_sort_key[of "\<lambda>n. n" xs] by simp
  with ys have le: "\<forall>z \<in> set ?ys. y \<le> z" by auto
  have "y \<in> set xs" using ys by (metis list.set_intros(1) set_sort)
  moreover have "\<forall>z \<in> set xs. y \<le> z" using le by simp
  ultimately have "Min (set xs) = y" by (intro Min_eqI) auto
  with ys show ?thesis by (simp add: first_def sortBy_def)
qed

lemma paginate_all_pages:
  "paginate acc (map Inr ps) (\<lambda>data. (data, P data)) =
     (Inr (acc @ concat (take (min (length ps) (Suc (length (takeWhile (\<lambda>d. \<not> P d) ps)))) ps)),
      min (length ps) (Suc (length (takeWhile (\<lambda>d. \<not> P d) ps))))"
  by (induction ps arbitrary: acc) auto

lemma paginate_failure:
  assumes "list_all (\<lambda>data. \<not> snd (mapFn data)) ps"
  shows "paginate acc (map Inr ps @ Inl e # rest) mapFn = (Inl e, Suc (length ps))"
  using assms by (induction ps arbitrary: acc) auto

lemma find_number_iff:
  "(find (\<lambda>pr. Some (number pr) = Some m) data \<noteq> None) = (m \<in> number ` set data)"
  by (auto simp: find_None_iff)

lemma takeWhile_length_le_index:
  assumes "k < length ps" "P (ps ! k)"
  shows "length (takeWhile (\<lambda>d. \<not> P d) ps) \<le> k"
proof (rule ccontr)
  assume "\<not> length (takeWhile (\<lambda>d. \<not> P d) ps) \<le> k"
  then have lt: "k < length (takeWhile (\<lambda>d. \<not> P d) ps)" by simp
  then have "takeWhile (\<lambda>d. \<not> P d) ps ! k = ps ! k" by (rule takeWhile_nth)
  moreover from lt have "takeWhile (\<lambda>d. \<not> P d) ps ! k \<in> set (takeWhile (\<lambda>d. \<not> P d) ps)"
    by simp
  ultimately have "\<not> P (ps ! k)" by (metis set_takeWhileD)
  with assms(2) show False by simp
qed

text \<open>
  C5. For a non-empty request, against a listing whose pages all arrive:
  \<open>fetchAllPullRequests\<close> asks for the pull requests in all states, sorted by creation,
  descending, 100 to a page; it requests pages up to and including the first one that
  holds the smallest requested number (all of them when no page does) and no page after
  it; its result is every record of those pages whose number was requested, so a
  requested number that was not seen is simply absent; and when page \<open>k + 1\<close> holds the
  smallest requested number, at most \<open>k + 1\<close> requests are issued.
\<close>

theorem fetchAllPullRequests_early_stop:
  assumes "pullRequestNumbers \<noteq> []"
    and "pulls_list \<lparr>owner = GITHUB_OWNER C, repo = APP_REPO C, state = ''all'',
                      sort = ''created'', direction = ''desc'', per_page = 100\<rparr> = map Inr listing"
  defines "oldest \<equiv> Min (set pullRequestNumbers)"
  defines "requests \<equiv>
             min (length listing)
                 (Suc (length (takeWhile (\<lambda>data. oldest \<notin> number ` set data) listing)))"
  shows "fetchAllPullRequests C pulls_list pullRequestNumbers =
           (Inr (Some (filter (\<lambda>pr. number pr \<in> set pullRequestNumbers)
                              (concat (take requests listing)))), requests)
         \<and> (\<forall>k < length listing. oldest \<in> number ` set (listing ! k) \<longrightarrow> requests \<le> Suc k)"
proof
  show "fetchAllPullRequests C pulls_list pullRequestNumbers =
           (Inr (Some (filter (\<lambda>pr. number pr \<in> set pullRequestNumbers)
                              (concat (take requests listing)))), requests)"
    unfolding fetchAllPullRequests_def Let_def assms(2) first_sortBy_Min[OF assms(1)]
      find_number_iff paginate_all_pages
    by (simp add: requests_def oldest_def contains_def)
next
  show "\<forall>k < length listing. oldest \<in> number ` set (listing ! k) \<longrightarrow> requests \<le> Suc k"
  proof (intro allI impI)
    fix k assume "k < length listing" "oldest \<in> number ` set (listing ! k)"
    from takeWhile_length_le_index[of k listing "\<lambda>d. oldest \<in> number ` set d", OF this]
    show "requests \<le> Suc k" by (simp add: requests_def)
  qed
qed

text \<open>A listing of 250 pages with the smallest requested number, 5, on the third page.\<close>

definition pr0 :: "nat \<Rightarrow> pull_request" where
  "pr0 n = \<lparr>url = [], number = n, title = [], labels = [], html_url = [], merged_by = None\<rparr>"

definition listing0 :: "pull_request list list" where
  "listing0 = [[pr0 9], [pr0 8, pr0 7], [pr0 6, pr0 5], [pr0 4]] @ replicate 246 [pr0 1]"

lemma Min_759: "Min (set [7, 5, 9::nat]) = 5"
  by simp

lemma length_listing0: "length listing0 = 250"
  by (simp add: listing0_def)

lemma number_pr0: "number (pr0 n) = n"
  by (simp add: pr0_def)

lemma requests_listing0:
  "min (length listing0)
       (Suc (length (takeWhile (\<lambda>data. 5 \<notin> number ` set data) listing0))) = 3"
  by (simp add: listing0_def number_pr0)

lemma take_listing0: "take 3 listing0 = [[pr0 9], [pr0 8, pr0 7], [pr0 6, pr0 5]]"
  by (simp add: listing0_def)

theorem fetchAllPullRequests_early_stop_witness:
  "[7, 5, 9] \<noteq> ([]::nat list)
   \<and> length listing0 = 250
   \<and> Min (set [7, 5, 9::nat]) \<in> number ` set (listing0 ! 2)
   \<and> fetchAllPullRequests expensify (\<lambda>_. map Inr listing0) [7, 5, 9]
       = (Inr (Some [pr0 9, pr0 7, pr0 5]), 3)
   \<and> (3::nat) \<le> 4"
proof -
  have h1: "[7, 5, 9] \<noteq> ([]::nat list)" by simp
  have h2: "(\<lambda>_. map Inr listing0)
              \<lparr>owner = GITHUB_OWNER expensify, repo = APP_REPO expensify, state = ''all'',
               sort = ''created'', direction = ''desc'', per_page = 100\<rparr> = map Inr listing0"
    by simp
  have h3: "listing0 ! 2 = [pr0 6, pr0 5]" by (simp add: listing0_def)
  from fetchAllPullRequests_early_stop[OF h1 h2] show ?thesis
    unfolding Min_759 requests_listing0 take_listing0
    by (simp add: length_listing0 number_pr0 h3)
qed

section \<open>A fetch that fails\<close>

lemma fetchAllPullRequests_failure:
  assumes "pulls_list \<lparr>owner = GITHUB_OWNER C, repo = APP_REPO C, state = ''all'',
                        sort = ''created'', direction = ''desc'', per_page = 100\<rparr>
             = map Inr ps @ Inl e # rest"
    and "list_all (\<lambda>data. find (\<lambda>pr. Some (number pr) = first (sortBy (\<lambda>n. n) pullRequestNumbers))
                                 data = None) ps"
  shows "fetchAllPullRequests C pulls_list pullRequestNumbers = (Inr None, Suc (length ps))"
proof -
  let ?mapFn = "\<lambda>data. (data, find (\<lambda>pr. Some (number pr) = first (sortBy (\<lambda>n. n) pullRequestNumbers))
                                 data \<noteq> None)"
  from assms(2) have "list_all (\<lambda>data. \<not> snd (?mapFn data)) ps"
    by (simp add: list_all_iff)
  from paginate_failure[OF this, of "[]" e rest] show ?thesis
    unfolding fetchAllPullRequests_def Let_def assms(1) by simp
qed

lemma fetchAllPullRequests_empty_page:
  "fetchAllPullRequests C (\<lambda>_. [Inr []]) pullRequestNumbers = (Inr (Some []), 1)"
  by (simp add: fetchAllPullRequests_def)

lemma pull_100: "getPullRequestNumberFromURL ''https://github.com/Expensify/App/pull/100'' = Inr 100"
  by code_simp

text \<open>
  C2, as the code has it. When a request of the listing fails before a page with the
  smallest requested number has arrived, \<open>fetchAllPullRequests\<close> does not fail: the error
  is written to the console and the promise resolves to \<open>undefined\<close>. The generation of
  the body goes on with no fetched record: its result is the one it gives against a
  remote whose listing is one empty page, so the failure does not reach the caller.
\<close>

theorem fetch_failure_is_swallowed:
  assumes "pulls_list \<lparr>owner = GITHUB_OWNER C, repo = APP_REPO C, state = ''all'',
                        sort = ''created'', direction = ''desc'', per_page = 100\<rparr>
             = map Inr ps @ Inl e # rest"
    and "mapE getPullRequestNumberFromURL PRList' = Inr pullRequestNumbers"
    and "\<forall>data \<in> set ps. \<forall>pr \<in> set data.
           Some (number pr) \<noteq> first (sortBy (\<lambda>n. n) pullRequestNumbers)"
  shows "fetchAllPullRequests C pulls_list pullRequestNumbers = (Inr None, Suc (length ps))
         \<and> generateStagingDeployCashBody C pulls_list tag' PRList' verifiedPRList deployBlockers'
              resolvedDeployBlockers resolvedInternalQAPRs t f g
            = generateStagingDeployCashBody C (\<lambda>_. [Inr []]) tag' PRList' verifiedPRList
              deployBlockers' resolvedDeployBlockers resolvedInternalQAPRs t f g"
proof -
  from assms(3) have "list_all (\<lambda>data. find (\<lambda>pr. Some (number pr)
      = first (sortBy (\<lambda>n. n) pullRequestNumbers)) data = None) ps"
    by (auto simp: list_all_iff find_None_iff)
  from fetchAllPullRequests_failure[of pulls_list C ps e rest pullRequestNumbers, OF assms(1) this]
  have a: "fetchAllPullRequests C pulls_list pullRequestNumbers = (Inr None, Suc (length ps))" .
  show ?thesis
    by (simp add: a assms(2) generateStagingDeployCashBody_def fetchAllPullRequests_empty_page)
qed

theorem fetch_failure_is_swallowed_witness:
  "(\<lambda>_. [Inl TransportFailure])
      \<lparr>owner = GITHUB_OWNER expensify, repo = APP_REPO expensify, state = ''all'',
       sort = ''created'', direction = ''desc'', per_page = 100\<rparr>
     = map Inr [] @ Inl TransportFailure # []
   \<and> mapE getPullRequestNumberFromURL [''https://github.com/Expensify/App/pull/100''] = Inr [100]
   \<and> fetchAllPullRequests expensify (\<lambda>_. [Inl TransportFailure]) [100] = (Inr None, 1)
   \<and> generateStagingDeployCashBody expensify (\<lambda>_. [Inl TransportFailure]) ''1.2.3-4''
        [''https://github.com/Expensify/App/pull/100''] [] [] [] [] False False False
      = generateStagingDeployCashBody expensify (\<lambda>_. [Inr []]) ''1.2.3-4''
        [''https://github.com/Expensify/App/pull/100''] [] [] [] [] False False False"
proof -
  have h1: "(\<lambda>_. [Inl TransportFailure])
      \<lparr>owner = GITHUB_OWNER expensify, repo = APP_REPO expensify, state = ''all'',
       sort = ''created'', direction = ''desc'', per_page = 100\<rparr>
     = map Inr [] @ Inl TransportFailure # []" by simp
  have h2: "mapE getPullRequestNumberFromURL [''https://github.com/Expensify/App/pull/100'']
     = Inr [100]" by (simp add: pull_100)
  have h3: "\<forall>data \<in> set ([]::pull_request list list). \<forall>pr \<in> set data.
           Some (number pr) \<noteq> first (sortBy (\<lambda>n. n) [100])" by simp
  from fetch_failure_is_swallowed[OF h1 h2 h3] h1 h2 show ?thesis by simp
qed

text \<open>
  The claim C2 itself fails: with a remote whose first answer is a failure, the fetch
  resolves to \<open>undefined\<close> and the generation returns a body that lists the pull request.
\<close>

theorem fetch_failure_counterexample:
  "fst (fetchAllPullRequests expensify (\<lambda>_. [Inl TransportFailure]) [100]) = Inr None
   \<and> generateStagingDeployCashBody expensify (\<lambda>_. [Inl TransportFailure]) ''1.2.3-4''
        [''https://github.com/Expensify/App/pull/100''] [] [] [] [] False False False
      = Inr (Some \<lparr>issueBody =
                     headerText ''1.2.3-4''
                     @ PRListText [''https://github.com/Expensify/App/pull/100''] []
                     @ verificationsText False False False,
                   issueAssignees = []\<rparr>)"
proof -
  have a: "fetchAllPullRequests expensify (\<lambda>_. [Inl TransportFailure]) [100] = (Inr None, 1)"
    by (simp add: fetchAllPullRequests_def)
  show ?thesis
    by (simp add: a generateStagingDeployCashBody_def pull_100 buildIssue_def
        internalQAPRMap_def noQAPRs_def union_def unique_def difference_def keys_def entries_def
        sortedPRList_def sortedDeployBlockers_def sortByE_def sortBy_def internalQAText_def
        deployBlockersText_def valuesOf_def)
qed

section \<open>Rate limits\<close>

text \<open>
  The two callbacks handed to the throttling plug-in. \<open>onRateLimit\<close> warns, and asks for a
  retry (it returns \<open>true\<close>) when \<open>options.request.retryCount\<close> is at most 5; otherwise it
  returns nothing. \<open>onAbuseLimit\<close> only warns.
\<close>

datatype console_line =
    WarnQuotaExhausted string string
  | LogRetryingAfter nat
  | WarnAbuseDetected string string

definition onRateLimit :: "nat \<Rightarrow> string \<Rightarrow> string \<Rightarrow> nat \<Rightarrow> bool \<times> console_line list" where
  "onRateLimit retryAfter method URL retryCount =
     (if retryCount \<le> 5
      then (True, [WarnQuotaExhausted method URL, LogRetryingAfter retryAfter])
      else (False, [WarnQuotaExhausted method URL]))"

definition onAbuseLimit :: "nat \<Rightarrow> string \<Rightarrow> string \<Rightarrow> bool \<times> console_line list" where
  "onAbuseLimit retryAfter method URL = (False, [WarnAbuseDetected method URL])"

text \<open>
  Modelled from the spec: the loop that makes the requests and calls the two callbacks is
  the throttling plug-in's, which is not among the sources. A request is attempted; on a
  rate-limit signal the plug-in calls \<open>onRateLimit\<close> with the delay the server suggests and
  with the number of retries made so far for this request (0 after the first attempt),
  and it waits and retries when the callback returns \<open>true\<close>; an abuse signal or any other
  failure ends the request. The remote is a function from the number of the attempt to
  its answer. The result carries the number of attempts and the console.
\<close>

datatype 'a answer = Answered 'a | RateLimited nat | AbuseLimited nat | Failed error

function request ::
  "(nat \<Rightarrow> 'a answer) \<Rightarrow> string \<Rightarrow> string \<Rightarrow> nat \<Rightarrow> (error + 'a) \<times> nat \<times> console_line list" where
  "request remote method URL retryCount =
     (case remote retryCount of
        Answered a \<Rightarrow> (Inr a, 1, [])
      | RateLimited retryAfter \<Rightarrow>
          (if fst (onRateLimit retryAfter method URL retryCount)
           then (case request remote method URL (Suc retryCount) of
                   (r, attempts, console) \<Rightarrow>
                     (r, Suc attempts, snd (onRateLimit retryAfter method URL retryCount) @ console))
           else (Inl RateLimitExceeded, 1, snd (onRateLimit retryAfter method URL retryCount)))
      | AbuseLimited retryAfter \<Rightarrow>
          (Inl AbuseDetected, 1, snd (onAbuseLimit retryAfter method URL))
      | Failed e \<Rightarrow> (Inl e, 1, []))"
  by pat_completeness auto
termination
  by (relation "measure (\<lambda>(remote, method, URL, retryCount). 6 - retryCount)")
     (auto simp: onRateLimit_def split: if_splits)

declare request.simps [simp del]

text \<open>
  C3. The callback asks for a retry for the retry counts 0 to 5, which are six, so a
  remote that answers every attempt with a rate-limit signal is asked seven times: the
  first attempt and six retries, each retry after a warning and the line that announces
  the delay; the seventh answer is followed by the warning alone and the failure reaches
  the caller.
\<close>

theorem always_rate_limited_seven_attempts:
  "request (\<lambda>_. RateLimited retryAfter) method URL 0 =
     (Inl RateLimitExceeded, 7,
      concat (replicate 6 [WarnQuotaExhausted method URL, LogRetryingAfter retryAfter])
      @ [WarnQuotaExhausted method URL])"
  by (simp add: request.simps[of _ _ _ 0] request.simps[of _ _ _ "Suc 0"]
      request.simps[of _ _ _ "Suc (Suc 0)"] request.simps[of _ _ _ "Suc (Suc (Suc 0))"]
      request.simps[of _ _ _ "Suc (Suc (Suc (Suc 0)))"]
      request.simps[of _ _ _ "Suc (Suc (Suc (Suc (Suc 0))))"]
      request.simps[of _ _ _ "Suc (Suc (Suc (Suc (Suc (Suc 0)))))"]
      onRateLimit_def numeral_eq_Suc)


section \<open>The lists of the generated body\<close>

lemma unique_fold:
  "set (foldl (\<lambda>acc x. if x \<in> set acc then acc else acc @ [x]) acc xs) = set acc \<union> set xs
   \<and> (distinct acc \<longrightarrow> distinct (foldl (\<lambda>acc x. if x \<in> set acc then acc else acc @ [x]) acc xs))"
  by (induction xs arbitrary: acc) auto

lemma set_unique [simp]: "set (unique xs) = set xs"
  using unique_fold[of "[]" xs] by (simp add: unique_def)

lemma distinct_unique [simp]: "distinct (unique xs)"
  using unique_fold[of "[]" xs] by (simp add: unique_def)

lemma set_difference [simp]: "set (difference xs ys) = set xs - set ys"
  by (auto simp: difference_def)

lemma mapE_Inr: "mapE f xs = Inr ys \<Longrightarrow> map f xs = map Inr ys"
  by (induction xs arbitrary: ys) (auto split: sum.splits)

lemma mapE_all_Inr: "mapE f xs = Inr ys \<Longrightarrow> x \<in> set xs \<Longrightarrow> f x = Inr (criterion f x)"
  by (induction xs arbitrary: ys) (auto simp: criterion_def split: sum.splits)

lemma sortByE_Inr:
  assumes "sortByE f xs = Inr ys"
  shows "ys = sort_key (criterion f) xs" and "\<And>x. x \<in> set xs \<Longrightarrow> f x = Inr (criterion f x)"
proof -
  from assms obtain ns where ns: "mapE f xs = Inr ns"
    by (auto simp: sortByE_def split: sum.splits)
  with assms show "ys = sort_key (criterion f) xs" by (simp add: sortByE_def sortBy_def)
  fix x assume "x \<in> set xs"
  with ns show "f x = Inr (criterion f x)" by (rule mapE_all_Inr)
qed

lemma sortByE_sorted:
  assumes "sortByE f xs = Inr ys"
  shows "sorted (map (criterion f) ys)" "set ys = set xs" "distinct ys = distinct xs"
  using sortByE_Inr(1)[OF assms] by simp_all


lemma set_entries [simp]: "set (entries obj) = set obj"
  by (auto simp: entries_def)

lemma set_keys: "set (keys obj) = fst ` set obj"
  by (simp add: keys_def)

lemma internalQA_fold:
  "foldl (\<lambda>acc pr. case acc of Inl e \<Rightarrow> Inl e
                    | Inr m \<Rightarrow> (case merged_by pr of None \<Rightarrow> Inl TypeError
                                | Some login \<Rightarrow> Inr (AList.update (html_url pr) login m)))
         acc prs = Inr m
   \<Longrightarrow> \<exists>m0. acc = Inr m0 \<and> fst ` set m = fst ` set m0 \<union> html_url ` set prs"
proof (induction prs arbitrary: acc)
  case Nil then show ?case by simp
next
  case (Cons pr prs)
  from Cons.IH[OF Cons.prems[simplified]] obtain m1 where
    m1: "(case acc of Inl e \<Rightarrow> Inl e
          | Inr m \<Rightarrow> (case merged_by pr of None \<Rightarrow> Inl TypeError
                      | Some login \<Rightarrow> Inr (AList.update (html_url pr) login m))) = Inr m1"
    and s: "fst ` set m = fst ` set m1 \<union> html_url ` set prs" by blast
  from m1 obtain m0 login where acc: "acc = Inr m0" and l: "merged_by pr = Some login"
    and u: "m1 = AList.update (html_url pr) login m0"
    by (auto split: sum.splits option.splits)
  have "fst ` set m1 = insert (html_url pr) (fst ` set m0)"
    unfolding u using AList.dom_update[of "html_url pr" login m0] by simp
  with s acc show ?case by auto
qed

lemma keys_internalQAPRMap:
  assumes "internalQAPRMap C data = Inr internalQA"
  shows "set (keys internalQA) = html_url ` {pr \<in> set data. INTERNAL_QA C \<in> set (labels pr)}"
  using internalQA_fold[OF assms[unfolded internalQAPRMap_def]] by (auto simp: set_keys)

lemma contains_union:
  "contains (union xs ys) x = (x \<in> set xs \<or> x \<in> set ys)"
  by (simp add: contains_def union_def)

lemma buildIssue_texts:
  assumes "internalQAPRMap C data = Inr internalQA"
    and "sortedPRList PRList' internalQA = Inr main"
    and "sortedDeployBlockers deployBlockers' = Inr blockers"
  shows "buildIssue C data tag' PRList' verifiedPRList deployBlockers' resolvedDeployBlockers
           resolvedInternalQAPRs t f g =
         Inr \<lparr>issueBody =
                headerText tag'
                @ PRListText main (union verifiedPRList (noQAPRs data))
                @ internalQAText internalQA resolvedInternalQAPRs
                @ deployBlockersText deployBlockers' blockers resolvedDeployBlockers
                @ verificationsText t f g,
              issueAssignees = valuesOf internalQA\<rparr>"
  by (simp add: buildIssue_def assms)

lemma entries_Nil_iff: "entries obj = [] \<longleftrightarrow> obj = []"
  using set_entries[of obj] by (metis set_empty)




text \<open>
  C7, as the code has it. When the body is built, its pull request section holds one line
  for every URL of the main list, in the order of that list, and the box of a line is
  checked exactly when its URL is in the verified list or belongs to a fetched record
  whose title carries the No QA marker; its internal QA section holds one line for every
  entry of the map of internal QA pull requests. The URLs of that map are those of the
  fetched records that carry the internal QA label. The main list holds exactly the
  listed URLs that are not among them, each once, in ascending order of their numbers.
  No URL is in both lists. Pull requests are told apart by the text of their URL: no
  number is in both lists provided that listed and fetched URLs with the same number are
  the same text.
\<close>

theorem main_list_of_the_body:
  assumes "internalQAPRMap C data = Inr internalQA"
    and "sortedPRList PRList' internalQA = Inr main"
    and "sortedDeployBlockers deployBlockers' = Inr blockers"
  shows "buildIssue C data tag' PRList' verifiedPRList deployBlockers' resolvedDeployBlockers
           resolvedInternalQAPRs t f g =
         Inr \<lparr>issueBody =
                headerText tag'
                @ (if main = [] then []
                   else CRLF
                     @ ''**This release contains changes from the following pull requests:**''
                     @ CRLF
                     @ concat (map (\<lambda>URL.
                         (if URL \<in> set verifiedPRList
                             \<or> URL \<in> html_url ` {PR \<in> set data. test NO_QA (title PR)}
                          then ''- [x]'' else ''- [ ]'') @ '' '' @ URL @ CRLF) main)
                     @ CRLF @ CRLF)
                @ (if entries internalQA = [] then []
                   else ''**Internal QA:**'' @ CRLF
                     @ concat (map (\<lambda>(URL, merger).
                         (if URL \<in> set resolvedInternalQAPRs then ''- [x]'' else ''- [ ]'')
                         @ '' '' @ URL @ '' - @'' @ merger @ CRLF) (entries internalQA))
                     @ CRLF @ CRLF)
                @ deployBlockersText deployBlockers' blockers resolvedDeployBlockers
                @ verificationsText t f g,
              issueAssignees = map snd (entries internalQA)\<rparr>
    \<and> set (map fst (entries internalQA))
        = html_url ` {pr \<in> set data. INTERNAL_QA C \<in> set (labels pr)}
    \<and> set main = set PRList' - set (map fst (entries internalQA))
    \<and> distinct main
    \<and> sorted (map (criterion getPullRequestNumberFromURL) main)
    \<and> (\<forall>URL \<in> set main.
          getPullRequestNumberFromURL URL = Inr (criterion getPullRequestNumberFromURL URL))
    \<and> set main \<inter> set (map fst (entries internalQA)) = {}
    \<and> ((\<forall>u \<in> set PRList'. \<forall>k \<in> set (map fst (entries internalQA)).
           getPullRequestNumberFromURL u = getPullRequestNumberFromURL k \<longrightarrow> u = k)
        \<longrightarrow> getPullRequestNumberFromURL ` set main
              \<inter> getPullRequestNumberFromURL ` set (map fst (entries internalQA)) = {})"
proof -
  note m0 = assms(2)[unfolded sortedPRList_def]
  note s = sortByE_sorted[OF m0]
  have k: "map fst (entries internalQA) = keys internalQA" by (simp add: keys_def)
  have m: "set main = set PRList' - set (map fst (entries internalQA))" using s(2) k by simp
  have d: "distinct main" using s(3) by simp
  have n: "\<forall>URL \<in> set main.
          getPullRequestNumberFromURL URL = Inr (criterion getPullRequestNumberFromURL URL)"
    using sortByE_Inr(2)[OF m0] s(2) by blast
  have c: "contains (union verifiedPRList (noQAPRs data)) URL =
               (URL \<in> set verifiedPRList
                \<or> URL \<in> html_url ` {PR \<in> set data. test NO_QA (title PR)})" for URL
    by (auto simp: contains_union noQAPRs_def)
  have p: "PRListText main (union verifiedPRList (noQAPRs data))
        = (if main = [] then []
                   else CRLF
                     @ ''**This release contains changes from the following pull requests:**''
                     @ CRLF
                     @ concat (map (\<lambda>URL.
                         (if URL \<in> set verifiedPRList
                             \<or> URL \<in> html_url ` {PR \<in> set data. test NO_QA (title PR)}
                          then ''- [x]'' else ''- [ ]'') @ '' '' @ URL @ CRLF) main)
                     @ CRLF @ CRLF)"
    by (simp add: PRListText_def c checkbox_def)
  have q: "internalQAText internalQA resolvedInternalQAPRs
        = (if entries internalQA = [] then []
                   else ''**Internal QA:**'' @ CRLF
                     @ concat (map (\<lambda>(URL, merger).
                         (if URL \<in> set resolvedInternalQAPRs then ''- [x]'' else ''- [ ]'')
                         @ '' '' @ URL @ '' - @'' @ merger @ CRLF) (entries internalQA))
                     @ CRLF @ CRLF)"
    by (simp add: internalQAText_def entries_Nil_iff checkbox_def contains_def)
  have b: "buildIssue C data tag' PRList' verifiedPRList deployBlockers' resolvedDeployBlockers
           resolvedInternalQAPRs t f g =
         Inr \<lparr>issueBody =
                headerText tag'
                @ (if main = [] then []
                   else CRLF
                     @ ''**This release contains changes from the following pull requests:**''
                     @ CRLF
                     @ concat (map (\<lambda>URL.
                         (if URL \<in> set verifiedPRList
                             \<or> URL \<in> html_url ` {PR \<in> set data. test NO_QA (title PR)}
                          then ''- [x]'' else ''- [ ]'') @ '' '' @ URL @ CRLF) main)
                     @ CRLF @ CRLF)
                @ (if entries internalQA = [] then []
                   else ''**Internal QA:**'' @ CRLF
                     @ concat (map (\<lambda>(URL, merger).
                         (if URL \<in> set resolvedInternalQAPRs then ''- [x]'' else ''- [ ]'')
                         @ '' '' @ URL @ '' - @'' @ merger @ CRLF) (entries internalQA))
                     @ CRLF @ CRLF)
                @ deployBlockersText deployBlockers' blockers resolvedDeployBlockers
                @ verificationsText t f g,
              issueAssignees = map snd (entries internalQA)\<rparr>"
    unfolding buildIssue_texts[OF assms] p q valuesOf_def ..
  have i: "set main \<inter> set (map fst (entries internalQA)) = {}" using m by auto
  have u: "(\<forall>u \<in> set PRList'. \<forall>k \<in> set (map fst (entries internalQA)).
           getPullRequestNumberFromURL u = getPullRequestNumberFromURL k \<longrightarrow> u = k)
        \<longrightarrow> getPullRequestNumberFromURL ` set main
              \<inter> getPullRequestNumberFromURL ` set (map fst (entries internalQA)) = {}"
    using m by auto
  from keys_internalQAPRMap[OF assms(1)] k
  have ks: "set (map fst (entries internalQA))
        = html_url ` {pr \<in> set data. INTERNAL_QA C \<in> set (labels pr)}" by simp
  from b ks m d s(1) n i u show ?thesis by (intro conjI)
qed


definition App_pull_100 :: string where
  "App_pull_100 = ''https://github.com/Expensify/App/pull/100''"
definition App_pull_100_files :: string where
  "App_pull_100_files = ''https://github.com/Expensify/App/pull/100/files''"
definition App_pull_101 :: string where
  "App_pull_101 = ''https://github.com/Expensify/App/pull/101''"
definition App_pull_102 :: string where
  "App_pull_102 = ''https://github.com/Expensify/App/pull/102''"

lemma number_App_pull_100: "getPullRequestNumberFromURL App_pull_100 = Inr 100"
  unfolding App_pull_100_def by code_simp
lemma number_App_pull_100_files: "getPullRequestNumberFromURL App_pull_100_files = Inr 100"
  unfolding App_pull_100_files_def by code_simp
lemma number_App_pull_101: "getPullRequestNumberFromURL App_pull_101 = Inr 101"
  unfolding App_pull_101_def by code_simp
lemma number_App_pull_102: "getPullRequestNumberFromURL App_pull_102 = Inr 102"
  unfolding App_pull_102_def by code_simp

lemma no_index_App:
  "isArrayIndex App_pull_100 = False" "isArrayIndex App_pull_101 = False"
  by (simp_all add: isArrayIndex_def App_pull_100_def App_pull_101_def digits_def)

lemma distinct_App:
  "App_pull_100 \<noteq> App_pull_100_files" "App_pull_101 \<noteq> App_pull_100" "App_pull_102 \<noteq> App_pull_100"
  "App_pull_102 \<noteq> App_pull_101"
  by (simp_all add: App_pull_100_def App_pull_100_files_def App_pull_101_def App_pull_102_def)

definition internal_100 :: pull_request where
  "internal_100 = \<lparr>url = ''https://api.github.com/repos/Expensify/App/pulls/100'', number = 100,
                    title = ''Fix the composer'', labels = [''InternalQA''],
                    html_url = App_pull_100, merged_by = Some ''octocat''\<rparr>"

definition noqa_101 :: pull_request where
  "noqa_101 = \<lparr>url = ''https://api.github.com/repos/Expensify/App/pulls/101'', number = 101,
                 title = ''[No QA] Update the docs'', labels = [],
                 html_url = App_pull_101, merged_by = Some ''octocat''\<rparr>"

lemma internal_100_fields:
  "number internal_100 = 100" "title internal_100 = ''Fix the composer''"
  "labels internal_100 = [''InternalQA'']" "html_url internal_100 = App_pull_100"
  "merged_by internal_100 = Some ''octocat''"
  by (simp_all add: internal_100_def)

lemma noqa_101_fields:
  "number noqa_101 = 101" "title noqa_101 = ''[No QA] Update the docs''"
  "labels noqa_101 = []" "html_url noqa_101 = App_pull_101"
  "merged_by noqa_101 = Some ''octocat''"
  by (simp_all add: noqa_101_def)

lemma noqa_title: "test NO_QA ''[No QA] Update the docs'' = True"
  by code_simp
lemma plain_title: "test NO_QA ''Fix the composer'' = False"
  by code_simp

lemma map_100: "internalQAPRMap expensify [internal_100] = Inr [(App_pull_100, ''octocat'')]"
  by (simp add: internalQAPRMap_def expensify_def internal_100_fields)

lemma map_100_101:
  "internalQAPRMap expensify [internal_100, noqa_101] = Inr [(App_pull_100, ''octocat'')]"
  by (simp add: internalQAPRMap_def expensify_def internal_100_fields noqa_101_fields)

lemma keys_100: "keys [(App_pull_100, ''octocat'')] = [App_pull_100]"
  by (simp add: keys_def entries_def no_index_App)

lemma sorted_100_files:
  "sortedPRList [App_pull_100_files] [(App_pull_100, ''octocat'')] = Inr [App_pull_100_files]"
  by (simp add: sortedPRList_def keys_100 difference_def unique_def sortByE_def sortBy_def
      number_App_pull_100_files distinct_App distinct_App[symmetric])

text \<open>
  The claim C7 itself fails on its last part: a listed URL that differs from the fetched
  one in its text (here by the suffix \<open>/files\<close>) is written in the pull request section
  while the fetched URL is written in the internal QA section, both with the number 100.
\<close>

theorem same_number_in_both_lists_counterexample:
  "getPullRequestNumberFromURL App_pull_100_files = Inr 100
   \<and> getPullRequestNumberFromURL App_pull_100 = Inr 100
   \<and> generateStagingDeployCashBody expensify (\<lambda>_. [Inr [internal_100]]) ''1.2.3-4''
        [App_pull_100_files] [] [] [] [] False False False
      = Inr (Some \<lparr>issueBody =
                     headerText ''1.2.3-4''
                     @ CRLF
                     @ ''**This release contains changes from the following pull requests:**''
                     @ CRLF
                     @ ''- [ ] '' @ App_pull_100_files @ CRLF
                     @ CRLF @ CRLF
                     @ ''**Internal QA:**'' @ CRLF
                     @ ''- [ ] '' @ App_pull_100 @ '' - @octocat'' @ CRLF
                     @ CRLF @ CRLF
                     @ verificationsText False False False,
                   issueAssignees = [''octocat'']\<rparr>)"
proof -
  have f: "fetchAllPullRequests expensify (\<lambda>_. [Inr [internal_100]]) [100]
           = (Inr (Some [internal_100]), 1)"
    by (simp add: fetchAllPullRequests_def first_def sortBy_def contains_def internal_100_fields)
  have g: "generateStagingDeployCashBody expensify (\<lambda>_. [Inr [internal_100]]) ''1.2.3-4''
        [App_pull_100_files] [] [] [] [] False False False
      = Inr (Some \<lparr>issueBody =
                     headerText ''1.2.3-4''
                     @ CRLF
                     @ ''**This release contains changes from the following pull requests:**''
                     @ CRLF
                     @ ''- [ ] '' @ App_pull_100_files @ CRLF
                     @ CRLF @ CRLF
                     @ ''**Internal QA:**'' @ CRLF
                     @ ''- [ ] '' @ App_pull_100 @ '' - @octocat'' @ CRLF
                     @ CRLF @ CRLF
                     @ verificationsText False False False,
                   issueAssignees = [''octocat'']\<rparr>)"
    by (simp add: generateStagingDeployCashBody_def number_App_pull_100_files f buildIssue_def
        map_100 sorted_100_files sortedDeployBlockers_def sortByE_def sortBy_def unique_def
        deployBlockersText_def noQAPRs_def internal_100_fields plain_title union_def valuesOf_def
        entries_def no_index_App PRListText_def internalQAText_def checkbox_def contains_def)
  from number_App_pull_100_files number_App_pull_100 g
  show ?thesis by (intro conjI)
qed

lemma sorted_101_102:
  "sortedPRList [App_pull_102, App_pull_101, App_pull_100] [(App_pull_100, ''octocat'')]
     = Inr [App_pull_101, App_pull_102]"
  by (simp add: sortedPRList_def keys_100 difference_def unique_def sortByE_def sortBy_def
      criterion_def number_App_pull_101 number_App_pull_102 distinct_App distinct_App[symmetric])

lemma entries_100: "entries [(App_pull_100, ''octocat'')] = [(App_pull_100, ''octocat'')]"
  by (simp add: entries_def no_index_App)

lemma sorted_no_blockers: "sortedDeployBlockers [] = Inr []"
  by (simp add: sortedDeployBlockers_def sortByE_def sortBy_def unique_def)

lemma noQA_100_101:
  "html_url ` {PR \<in> set [internal_100, noqa_101]. test NO_QA (title PR)} = {App_pull_101}"
proof -
  have "{PR \<in> set [internal_100, noqa_101]. test NO_QA (title PR)} = {noqa_101}"
    by (auto simp: noqa_101_fields internal_100_fields noqa_title plain_title)
  then show ?thesis by (simp add: noqa_101_fields)
qed

theorem main_list_of_the_body_witness:
  "internalQAPRMap expensify [internal_100, noqa_101] = Inr [(App_pull_100, ''octocat'')]
   \<and> sortedPRList [App_pull_102, App_pull_101, App_pull_100] [(App_pull_100, ''octocat'')]
       = Inr [App_pull_101, App_pull_102]
   \<and> sortedDeployBlockers [] = Inr []
   \<and> map getPullRequestNumberFromURL [App_pull_102, App_pull_101, App_pull_100]
       = [Inr 102, Inr 101, Inr 100]
   \<and> buildIssue expensify [internal_100, noqa_101] ''1.2.3-4''
        [App_pull_102, App_pull_101, App_pull_100] [] [] [] [] False False False
      = Inr \<lparr>issueBody =
               headerText ''1.2.3-4''
               @ CRLF @ ''**This release contains changes from the following pull requests:**''
               @ CRLF
               @ ''- [x] '' @ App_pull_101 @ CRLF
               @ ''- [ ] '' @ App_pull_102 @ CRLF
               @ CRLF @ CRLF
               @ ''**Internal QA:**'' @ CRLF
               @ ''- [ ] '' @ App_pull_100 @ '' - @octocat'' @ CRLF
               @ CRLF @ CRLF
               @ deployBlockersText [] [] []
               @ verificationsText False False False,
             issueAssignees = [''octocat'']\<rparr>
   \<and> set [App_pull_101, App_pull_102] \<inter> {App_pull_100} = {}
   \<and> getPullRequestNumberFromURL ` set [App_pull_101, App_pull_102]
       \<inter> getPullRequestNumberFromURL ` {App_pull_100} = {}"
proof -
  note t = main_list_of_the_body[OF map_100_101 sorted_101_102 sorted_no_blockers,
      where verifiedPRList = "[]" and tag' = "''1.2.3-4''"
        and resolvedDeployBlockers = "[]" and resolvedInternalQAPRs = "[]"
        and t = False and f = False and g = False]
  have nums: "map getPullRequestNumberFromURL [App_pull_102, App_pull_101, App_pull_100]
       = [Inr 102, Inr 101, Inr 100]"
    by (simp add: number_App_pull_100 number_App_pull_101 number_App_pull_102)
  have b: "buildIssue expensify [internal_100, noqa_101] ''1.2.3-4''
        [App_pull_102, App_pull_101, App_pull_100] [] [] [] [] False False False
      = Inr \<lparr>issueBody =
               headerText ''1.2.3-4''
               @ CRLF @ ''**This release contains changes from the following pull requests:**''
               @ CRLF
               @ ''- [x] '' @ App_pull_101 @ CRLF
               @ ''- [ ] '' @ App_pull_102 @ CRLF
               @ CRLF @ CRLF
               @ ''**Internal QA:**'' @ CRLF
               @ ''- [ ] '' @ App_pull_100 @ '' - @octocat'' @ CRLF
               @ CRLF @ CRLF
               @ deployBlockersText [] [] []
               @ verificationsText False False False,
             issueAssignees = [''octocat'']\<rparr>"
    using t[THEN conjunct1, unfolded noQA_100_101 entries_100]
    by (simp add: distinct_App distinct_App[symmetric])
  from t have dis: "set [App_pull_101, App_pull_102]
       \<inter> set (map fst (entries [(App_pull_100, ''octocat'')])) = {}" by (elim conjE)
  from t have imp: "(\<forall>u \<in> set [App_pull_102, App_pull_101, App_pull_100].
          \<forall>k \<in> set (map fst (entries [(App_pull_100, ''octocat'')])).
           getPullRequestNumberFromURL u = getPullRequestNumberFromURL k \<longrightarrow> u = k)
        \<longrightarrow> getPullRequestNumberFromURL ` set [App_pull_101, App_pull_102]
       \<inter> getPullRequestNumberFromURL ` set (map fst (entries [(App_pull_100, ''octocat'')])) = {}"
    by (elim conjE)
  have inj: "\<forall>u \<in> set [App_pull_102, App_pull_101, App_pull_100].
          \<forall>k \<in> set (map fst (entries [(App_pull_100, ''octocat'')])).
           getPullRequestNumberFromURL u = getPullRequestNumberFromURL k \<longrightarrow> u = k"
    by (simp add: entries_100 number_App_pull_100 number_App_pull_101 number_App_pull_102)
  from imp inj have "getPullRequestNumberFromURL ` set [App_pull_101, App_pull_102]
       \<inter> getPullRequestNumberFromURL ` set (map fst (entries [(App_pull_100, ''octocat'')])) = {}"
    by (rule mp)
  then have num: "getPullRequestNumberFromURL ` set [App_pull_101, App_pull_102]
       \<inter> getPullRequestNumberFromURL ` {App_pull_100} = {}" by (simp add: entries_100)
  from dis have dis': "set [App_pull_101, App_pull_102] \<inter> {App_pull_100} = {}"
    by (simp add: entries_100)
  from map_100_101 sorted_101_102 sorted_no_blockers nums b dis' num show ?thesis
    by (intro conjI)
qed



definition App_issues_9 :: string where
  "App_issues_9 = ''https://github.com/Expensify/App/issues/9''"
definition App_pull_7 :: string where
  "App_pull_7 = ''https://github.com/Expensify/App/pull/7''"
definition App_pull_9641 :: string where
  "App_pull_9641 = ''https://github.com/Expensify/App/pull/9641''"
definition App_pull_9642 :: string where
  "App_pull_9642 = ''https://github.com/Expensify/App/pull/9642''"

lemma number_App_issues_9: "getIssueOrPullRequestNumberFromURL App_issues_9 = Inr 9"
  unfolding App_issues_9_def by code_simp
lemma number_App_pull_7: "getIssueOrPullRequestNumberFromURL App_pull_7 = Inr 7"
  unfolding App_pull_7_def by code_simp
lemma number_App_pull_9641: "getPullRequestNumberFromURL App_pull_9641 = Inr 9641"
  unfolding App_pull_9641_def by code_simp
lemma number_App_pull_9642: "getPullRequestNumberFromURL App_pull_9642 = Inr 9642"
  unfolding App_pull_9642_def by code_simp

lemma distinct_App_more:
  "App_issues_9 \<noteq> App_pull_7" "App_pull_9642 \<noteq> App_pull_9641"
  by (simp_all add: App_issues_9_def App_pull_7_def App_pull_9641_def App_pull_9642_def)

lemma no_index_App_more:
  "isArrayIndex App_pull_9641 = False" "isArrayIndex App_pull_9642 = False"
  by (simp_all add: isArrayIndex_def App_pull_9641_def App_pull_9642_def digits_def)




lemma entries_Nil [simp]: "entries [] = []"
  by (simp add: entries_def)


definition internal_9641 :: pull_request where
  "internal_9641 = \<lparr>url = ''https://api.github.com/repos/Expensify/App/pulls/9641'', number = 9641,
                     title = ''Add a report action'', labels = [''InternalQA''],
                     html_url = App_pull_9641, merged_by = Some ''PauloGasparSv''\<rparr>"

definition internal_9642 :: pull_request where
  "internal_9642 = \<lparr>url = ''https://api.github.com/repos/Expensify/App/pulls/9642'', number = 9642,
                     title = ''Fix a crash'', labels = [''InternalQA''],
                     html_url = App_pull_9642, merged_by = Some ''mountiny''\<rparr>"

lemma plain_titles:
  "test NO_QA ''Fix a crash'' = False" "test NO_QA ''Add a report action'' = False"
  by code_simp+


section \<open>Searching with a pattern\<close>

declare match_all.simps [simp del]
declare search.simps [simp del]

lemma seqs_Nil [simp]: "seqs [] = Eps"
  by (simp add: seqs_def)

lemma seqs_Cons [simp]: "seqs (r # rs) = Seq r (seqs rs)"
  by (simp add: seqs_def)

lemma str_Nil [simp]: "str [] = Eps"
  by (simp add: str_def)

lemma str_Cons [simp]: "str (c # L) = Seq (Chr c) (str L)"
  by (simp add: str_def)

lemma rmatch_str: "rmatch (str L) (s, cs) = (if prefix L s then [(drop (length L) s, cs)] else [])"
proof (induction L arbitrary: s)
  case Nil then show ?case by simp
next
  case (Cons c L)
  show ?case by (cases s) (simp_all add: Cons.IH)
qed

lemma rmatch_str_Seq:
  "rmatch (Seq (str L) r) (s, cs) = (if prefix L s then rmatch r (drop (length L) s, cs) else [])"
  by (simp add: rmatch_str)

lemma search_hit:
  "rmatch r (s, []) = (rest, cs) # sts
   \<Longrightarrow> search r pre s = Some (pre, take (length s - length rest) s, cs, rest)"
  by (simp add: search.simps)

lemma search_miss:
  "rmatch r (x # xs, []) = [] \<Longrightarrow> search r pre (x # xs) = search r (pre @ [x]) xs"
  by (simp add: search.simps)

lemma search_skip:
  "(\<forall>k < length a. rmatch r (drop k (a @ b), []) = []) \<Longrightarrow> search r pre (a @ b) = search r (pre @ a) b"
proof (induction a arbitrary: pre)
  case Nil then show ?case by simp
next
  case (Cons x a)
  from Cons.prems have 0: "rmatch r (x # a @ b, []) = []" by (auto dest: spec[of _ 0])
  from Cons.prems have "\<forall>k < length a. rmatch r (drop k (a @ b), []) = []"
    by (auto dest: spec[of _ "Suc k" for k])
  from Cons.IH[OF this, of "pre @ [x]"] 0 show ?case by (simp add: search_miss)
qed

lemma search_None_iff:
  "search r pre s = None \<longleftrightarrow> (\<forall>k \<le> length s. rmatch r (drop k s, []) = [])"
proof (induction s arbitrary: pre)
  case Nil
  show ?case by (cases "rmatch r ([], [])") (auto simp: search.simps)
next
  case (Cons x xs)
  show ?case
  proof (cases "rmatch r (x # xs, [])")
    case Nil
    have "(\<forall>k \<le> length (x # xs). rmatch r (drop k (x # xs), []) = [])
          \<longleftrightarrow> (\<forall>k \<le> length xs. rmatch r (drop k xs, []) = [])"
    proof
      assume a: "\<forall>k \<le> length (x # xs). rmatch r (drop k (x # xs), []) = []"
      show "\<forall>k \<le> length xs. rmatch r (drop k xs, []) = []"
      proof (intro allI impI)
        fix k assume "k \<le> length xs"
        with a[rule_format, of "Suc k"] show "rmatch r (drop k xs, []) = []" by simp
      qed
    next
      assume a: "\<forall>k \<le> length xs. rmatch r (drop k xs, []) = []"
      show "\<forall>k \<le> length (x # xs). rmatch r (drop k (x # xs), []) = []"
      proof (intro allI impI)
        fix k assume k: "k \<le> length (x # xs)"
        show "rmatch r (drop k (x # xs), []) = []"
        proof (cases k)
          case 0 with Nil show ?thesis by simp
        next
          case (Suc j) with k a[rule_format, of j] show ?thesis by simp
        qed
      qed
    qed
    with Nil Cons.IH[of "pre @ [x]"] show ?thesis by (simp add: search_miss)
  next
    case (Cons st sts)
    then have "search r pre (x # xs) \<noteq> None" by (simp add: search.simps)
    moreover from Cons have "\<not> (\<forall>k \<le> length (x # xs). rmatch r (drop k (x # xs), []) = [])"
      by (auto intro: exI[of _ 0])
    ultimately show ?thesis by blast
  qed
qed

lemma search_SomeD:
  assumes "search r pre s = Some (p, m, cs, rest)"
  shows "\<exists>a. p = pre @ a \<and> s = a @ m @ rest
             \<and> (\<forall>k < length a. rmatch r (drop k s, []) = [])
             \<and> (\<exists>sts. rmatch r (m @ rest, []) = (rest, cs) # sts)"
  using assms
proof (induction s arbitrary: pre)
  case Nil
  show ?case
  proof (cases "rmatch r ([], [])")
    case Nil with Nil.prems show ?thesis by (simp add: search.simps)
  next
    case (Cons st sts)
    obtain rest' cs' where st: "st = (rest', cs')" by (cases st)
    from Cons st have hit: "rmatch r ([], []) = (rest', cs') # sts" by simp
    then have "(rest', cs') \<in> set (rmatch r ([], []))" by simp
    from rmatch_suffix[OF this] have "rest' = []" by simp
    with search_hit[OF hit, of pre] Nil.prems hit show ?thesis by auto
  qed
next
  case (Cons x xs)
  show ?case
  proof (cases "rmatch r (x # xs, [])")
    case Nil
    with Cons.prems have "search r (pre @ [x]) xs = Some (p, m, cs, rest)"
      by (simp add: search_miss)
    from Cons.IH[OF this] obtain a where a: "p = (pre @ [x]) @ a" "xs = a @ m @ rest"
      "\<forall>k < length a. rmatch r (drop k xs, []) = []"
      "\<exists>sts. rmatch r (m @ rest, []) = (rest, cs) # sts" by blast
    have "\<forall>k < length (x # a). rmatch r (drop k (x # xs), []) = []"
    proof (intro allI impI)
      fix k assume "k < length (x # a)"
      then show "rmatch r (drop k (x # xs), []) = []"
        using Nil a(3) by (cases k) auto
    qed
    with a show ?thesis by (intro exI[of _ "x # a"]) simp
  next
    case (Cons st sts)
    obtain rest' cs' where st: "st = (rest', cs')" by (cases st)
    from Cons st have hit: "rmatch r (x # xs, []) = (rest', cs') # sts" by simp
    from search_hit[OF hit, of pre] Cons.prems
    have eq: "p = pre" "m = take (length (x # xs) - length rest') (x # xs)" "cs = cs'" "rest = rest'"
      by simp_all
    from hit have "(rest', cs') \<in> set (rmatch r (x # xs, []))" by simp
    from rmatch_suffix[OF this] obtain q where q: "x # xs = q @ rest'" by blast
    with eq have m: "m = q" by simp
    show ?thesis using eq q m hit by (intro exI[of _ "[]"]) auto
  qed
qed

lemma test_iff: "test r s \<longleftrightarrow> (\<exists>k \<le> length s. rmatch r (drop k s, []) \<noteq> [])"
  by (auto simp: test_def search_None_iff)

lemma match_all_Nil_iff: "match_all r s = [] \<longleftrightarrow> \<not> test r s"
  by (subst match_all.simps) (auto simp: test_def split: option.splits)

lemma match_all_first:
  "search r [] s = Some (p, m, cs, rest) \<Longrightarrow> \<exists>more. match_all r s = (m, cs) # more"
  by (subst match_all.simps) simp

lemma match_array_None: "search r [] s = None \<Longrightarrow> match_array r s = None"
  by (simp add: match_array_def)

lemma literal_absent:
  assumes "\<not> sublist L s"
  shows "search (Seq (str L) r) pre s = None"
proof -
  have "rmatch (Seq (str L) r) (drop k s, []) = []" for k
  proof (rule ccontr)
    assume "rmatch (Seq (str L) r) (drop k s, []) \<noteq> []"
    then have "prefix L (drop k s)" by (auto simp: rmatch_str split: if_splits)
    then obtain t where "drop k s = L @ t" by (auto simp: prefix_def)
    then have "s = take k s @ L @ t" by (metis append_take_drop_id)
    then have "sublist L s" unfolding sublist_def by blast
    with assms show False by simp
  qed
  then show ?thesis by (simp add: search_None_iff)
qed

lemma no_PR_section:
  "\<not> sublist ''pull requests:**'' issue_body \<Longrightarrow> getStagingDeployCashPRList issue_body = []"
  by (simp add: getStagingDeployCashPRList_def PR_LIST_SECTION_def match_array_None literal_absent
      del: str_Cons)

lemma no_blocker_section:
  "\<not> sublist ''Deploy Blockers:**'' issue_body \<Longrightarrow> getStagingDeployCashDeployBlockers issue_body = []"
  by (simp add: getStagingDeployCashDeployBlockers_def DEPLOY_BLOCKER_SECTION_def match_array_None
      literal_absent del: str_Cons)

lemma no_internalQA_section:
  "\<not> sublist ''Internal QA:**'' issue_body \<Longrightarrow> getStagingDeployCashInternalQA issue_body = []"
  by (simp add: getStagingDeployCashInternalQA_def INTERNAL_QA_SECTION_def match_array_None
      literal_absent del: str_Cons)


text \<open>
  C9. For a ticket whose own URL is that of an issue or pull request, as every ticket of
  the platform's listing is, \<open>getStagingDeployCashData\<close> fails, and then with the one error
  of a checklist without the expected data, exactly when the body holds no version token.
  Otherwise it returns the data: the tag is the first version token of the body, and the
  three lists are what the three section parsers read, which is the empty list for a
  section whose heading the body does not contain.
\<close>

theorem data_or_malformed:
  assumes "getIssueOrPullRequestNumberFromURL (url issue) = Inr n"
  shows "(getStagingDeployCashData issue = Inl MalformedTicket) = (\<not> test versionRegex (body issue))
   \<and> (\<forall>e. getStagingDeployCashData issue = Inl e \<longrightarrow> e = MalformedTicket)
   \<and> (test versionRegex (body issue)
        \<longrightarrow> (\<exists>r p m cs rest.
               getStagingDeployCashData issue = Inr r
             \<and> search versionRegex [] (body issue) = Some (p, m, cs, rest)
             \<and> tag r = filter (\<lambda>c. c \<noteq> CHR 0x60) m
             \<and> number r = n
             \<and> PRList r = getStagingDeployCashPRList (body issue)
             \<and> internalQAPRList r = getStagingDeployCashInternalQA (body issue)
             \<and> deployBlockers r = getStagingDeployCashDeployBlockers (body issue)
             \<and> (\<not> sublist ''pull requests:**'' (body issue) \<longrightarrow> PRList r = [])
             \<and> (\<not> sublist ''Internal QA:**'' (body issue) \<longrightarrow> internalQAPRList r = [])
             \<and> (\<not> sublist ''Deploy Blockers:**'' (body issue) \<longrightarrow> deployBlockers r = [])))"
proof (intro conjI allI impI)
  show "(getStagingDeployCashData issue = Inl MalformedTicket) = (\<not> test versionRegex (body issue))"
    using assms
    by (cases "match_all versionRegex (body issue)")
       (simp_all add: getStagingDeployCashData_def match_all_Nil_iff[symmetric])
next
  fix e assume "getStagingDeployCashData issue = Inl e"
  then show "e = MalformedTicket"
    by (auto simp: getStagingDeployCashData_def split: list.splits sum.splits)
next
  assume a: "test versionRegex (body issue)"
  then obtain p m cs rest where s: "search versionRegex [] (body issue) = Some (p, m, cs, rest)"
    by (cases "search versionRegex [] (body issue)") (auto simp: test_def)
  from match_all_first[OF s] obtain ms where
    m: "match_all versionRegex (body issue) = (m, cs) # ms" by blast
  let ?r = "\<lparr>url = url issue, number = n, title = title issue, labels = labels issue,
                    PRList = getStagingDeployCashPRList (body issue),
                    deployBlockers = getStagingDeployCashDeployBlockers (body issue),
                    internalQAPRList = getStagingDeployCashInternalQA (body issue),
                    isTimingDashboardChecked = test TIMING_DASHBOARD_CHECKED (body issue),
                    isFirebaseChecked = test FIREBASE_CHECKED (body issue),
                    isGHStatusChecked = test GH_STATUS_CHECKED (body issue),
                    tag = filter (\<lambda>c. c \<noteq> CHR 0x60) m\<rparr>"
  have r: "getStagingDeployCashData issue = Inr ?r"
    using assms m by (simp add: getStagingDeployCashData_def)
  show "\<exists>r p m cs rest.
               getStagingDeployCashData issue = Inr r
             \<and> search versionRegex [] (body issue) = Some (p, m, cs, rest)
             \<and> tag r = filter (\<lambda>c. c \<noteq> CHR 0x60) m
             \<and> number r = n
             \<and> PRList r = getStagingDeployCashPRList (body issue)
             \<and> internalQAPRList r = getStagingDeployCashInternalQA (body issue)
             \<and> deployBlockers r = getStagingDeployCashDeployBlockers (body issue)
             \<and> (\<not> sublist ''pull requests:**'' (body issue) \<longrightarrow> PRList r = [])
             \<and> (\<not> sublist ''Internal QA:**'' (body issue) \<longrightarrow> internalQAPRList r = [])
             \<and> (\<not> sublist ''Deploy Blockers:**'' (body issue) \<longrightarrow> deployBlockers r = [])"
    using r s
    by (intro exI[of _ ?r] exI[of _ p] exI[of _ m] exI[of _ cs] exI[of _ rest])
       (simp add: no_PR_section no_blocker_section no_internalQA_section)
qed

definition bare_ticket :: issue where
  "bare_ticket = \<lparr>url = ''https://api.github.com/repos/Expensify/App/issues/123'', number = 123,
                   title = ''Deploy Checklist'', labels = [''StagingDeployCash''],
                   body = ''**Release Version:** `1.2.3-4`''\<rparr>"

lemma bare_ticket_number:
  "getIssueOrPullRequestNumberFromURL ''https://api.github.com/repos/Expensify/App/issues/123''
     = Inr 123"
  by code_simp

lemma bare_ticket_version: "test versionRegex ''**Release Version:** `1.2.3-4`'' = True"
  by code_simp

lemma bare_ticket_sections:
  "sublist ''pull requests:**'' ''**Release Version:** `1.2.3-4`'' = False"
  "sublist ''Internal QA:**'' ''**Release Version:** `1.2.3-4`'' = False"
  "sublist ''Deploy Blockers:**'' ''**Release Version:** `1.2.3-4`'' = False"
  by code_simp+

definition untagged_ticket :: issue where
  "untagged_ticket = \<lparr>url = ''https://api.github.com/repos/Expensify/App/issues/124'', number = 124,
                   title = ''Deploy Checklist'', labels = [''StagingDeployCash''],
                   body = ''**Release Version:** soon''\<rparr>"

lemma untagged_ticket_number:
  "getIssueOrPullRequestNumberFromURL ''https://api.github.com/repos/Expensify/App/issues/124''
     = Inr 124"
  by code_simp

lemma untagged_ticket_version: "test versionRegex ''**Release Version:** soon'' = False"
  by code_simp

lemma bare_ticket_search:
  "search versionRegex [] ''**Release Version:** `1.2.3-4`''
   = Some (''**Release Version:** `'', ''1.2.3-4'',
           [(4, ''4''), (3, ''3''), (2, ''2''), (1, ''1'')], ''`'')"
  by code_simp

theorem data_or_malformed_witness:
  "getIssueOrPullRequestNumberFromURL (url bare_ticket) = Inr 123
   \<and> test versionRegex (body bare_ticket)
   \<and> \<not> sublist ''pull requests:**'' (body bare_ticket)
   \<and> \<not> sublist ''Internal QA:**'' (body bare_ticket)
   \<and> \<not> sublist ''Deploy Blockers:**'' (body bare_ticket)
   \<and> (\<exists>r. getStagingDeployCashData bare_ticket = Inr r \<and> number r = 123 \<and> tag r = ''1.2.3-4''
          \<and> PRList r = [] \<and> internalQAPRList r = [] \<and> deployBlockers r = [])
   \<and> getIssueOrPullRequestNumberFromURL (url untagged_ticket) = Inr 124
   \<and> \<not> test versionRegex (body untagged_ticket)
   \<and> getStagingDeployCashData untagged_ticket = Inl MalformedTicket"
proof -
  have h: "getIssueOrPullRequestNumberFromURL (url bare_ticket) = Inr 123"
    "test versionRegex (body bare_ticket)"
    by (simp_all add: bare_ticket_def bare_ticket_number bare_ticket_version)
  have n: "\<not> sublist ''pull requests:**'' (body bare_ticket)"
    "\<not> sublist ''Internal QA:**'' (body bare_ticket)"
    "\<not> sublist ''Deploy Blockers:**'' (body bare_ticket)"
    by (simp_all add: bare_ticket_def bare_ticket_sections)
  have s: "search versionRegex [] (body bare_ticket)
   = Some (''**Release Version:** `'', ''1.2.3-4'',
           [(4, ''4''), (3, ''3''), (2, ''2''), (1, ''1'')], ''`'')"
    by (simp add: bare_ticket_def bare_ticket_search)
  from data_or_malformed[OF h(1)] h(2) obtain r p m cs rest where r:
    "getStagingDeployCashData bare_ticket = Inr r" "number r = 123"
    "search versionRegex [] (body bare_ticket) = Some (p, m, cs, rest)"
    "tag r = filter (\<lambda>c. c \<noteq> CHR 0x60) m"
    "\<not> sublist ''pull requests:**'' (body bare_ticket) \<longrightarrow> PRList r = []"
    "\<not> sublist ''Internal QA:**'' (body bare_ticket) \<longrightarrow> internalQAPRList r = []"
    "\<not> sublist ''Deploy Blockers:**'' (body bare_ticket) \<longrightarrow> deployBlockers r = []"
    by blast
  from r(3) s have "m = ''1.2.3-4''" by simp
  with r(4) have t: "tag r = ''1.2.3-4''" by simp
  have u: "getIssueOrPullRequestNumberFromURL (url untagged_ticket) = Inr 124"
    "\<not> test versionRegex (body untagged_ticket)"
    by (simp_all add: untagged_ticket_def untagged_ticket_number untagged_ticket_version)
  from data_or_malformed[OF u(1)] u(2)
  have f: "getStagingDeployCashData untagged_ticket = Inl MalformedTicket" by blast
  from r t n h u f show ?thesis by blast
qed

section \<open>Reading a section line by line\<close>

subsection \<open>Captures come on top of the captures already made\<close>

definition onto :: "captures \<Rightarrow> mstate \<Rightarrow> mstate" where
  "onto cs st = (fst st, snd st @ cs)"

lemma onto_simp [simp]: "onto cs (x, c) = (x, c @ cs)"
  by (simp add: onto_def)

lemma concat_map_cong_set:
  "(\<And>x. x \<in> set xs \<Longrightarrow> f x = g x) \<Longrightarrow> concat (map f xs) = concat (map g xs)"
  by (induction xs) auto

lemma rmatch_onto: "rmatch r (s, cs) = map (onto cs) (rmatch r (s, []))"
proof (induction r arbitrary: s cs)
  case Eps show ?case by simp
next
  case (Chr c) show ?case by (cases s) auto
next
  case Dot show ?case by (cases s) auto
next
  case (Cls M) show ?case by (cases s) auto
next
  case (Seq a b)
  have "rmatch (Seq a b) (s, cs) = concat (map (rmatch b) (map (onto cs) (rmatch a (s, []))))"
    using Seq.IH(1)[of s cs] by simp
  also have "\<dots> = concat (map (\<lambda>st. rmatch b (onto cs st)) (rmatch a (s, [])))"
    by (simp add: comp_def)
  also have "\<dots> = concat (map (\<lambda>st. map (onto cs) (rmatch b st)) (rmatch a (s, [])))"
  proof (rule concat_map_cong_set)
    fix st assume "st \<in> set (rmatch a (s, []))"
    obtain x c where st: "st = (x, c)" by (cases st)
    have "rmatch b (x, c @ cs) = map (onto (c @ cs)) (rmatch b (x, []))" by (rule Seq.IH(2))
    moreover have "rmatch b (x, c) = map (onto c) (rmatch b (x, []))" by (rule Seq.IH(2))
    ultimately show "rmatch b (onto cs st) = map (onto cs) (rmatch b st)"
      by (simp add: st onto_def comp_def)
  qed
  also have "\<dots> = map (onto cs) (rmatch (Seq a b) (s, []))"
    by (simp add: map_concat comp_def)
  finally show ?case .
next
  case (Alt a b)
  show ?case using Alt.IH(1)[of s cs] Alt.IH(2)[of s cs] by simp
next
  case (Opt a)
  show ?case using Opt.IH[of s cs] by simp
next
  case (Star a)
  show ?case
  proof (induction "length s" arbitrary: s cs rule: less_induct)
    case less
    let ?f = "\<lambda>n st'. if length (fst st') < n then rmatch (Star a) st' else []"
    have "concat (map (?f (length s)) (rmatch a (s, cs)))
          = concat (map (\<lambda>st. ?f (length s) (onto cs st)) (rmatch a (s, [])))"
      using Star.IH[of s cs] by (simp add: comp_def)
    also have "\<dots> = concat (map (\<lambda>st. map (onto cs) (?f (length s) st)) (rmatch a (s, [])))"
    proof (rule concat_map_cong_set)
      fix st assume "st \<in> set (rmatch a (s, []))"
      obtain x c where st: "st = (x, c)" by (cases st)
      show "?f (length s) (onto cs st) = map (onto cs) (?f (length s) st)"
      proof (cases "length x < length s")
        case True
        from less[OF True, of "c @ cs"] less[OF True, of c]
        show ?thesis using True by (simp add: st onto_def comp_def)
      next
        case False then show ?thesis by (simp add: st)
      qed
    qed
    also have "\<dots> = map (onto cs) (concat (map (?f (length s)) (rmatch a (s, []))))"
      by (simp add: map_concat comp_def)
    finally show ?case by simp
  qed
next
  case (Grp i a)
  show ?case using Grp.IH[of s cs] by (simp add: comp_def onto_def)
qed

subsection \<open>A character that the pattern cannot read stops it\<close>

fun accepts :: "regex \<Rightarrow> char \<Rightarrow> bool" where
  "accepts Eps c = False"
| "accepts (Chr x) c = (x = c)"
| "accepts Dot c = (\<not> lineTerminator c)"
| "accepts (Cls M) c = (c \<in> set M)"
| "accepts (Seq a b) c = (accepts a c \<or> accepts b c)"
| "accepts (Alt a b) c = (accepts a c \<or> accepts b c)"
| "accepts (Opt a) c = accepts a c"
| "accepts (Star a) c = accepts a c"
| "accepts (Grp i a) c = accepts a c"

definition followed :: "string \<Rightarrow> mstate \<Rightarrow> mstate" where
  "followed t st = (fst st @ t, snd st)"

lemma followed_simp [simp]: "followed t (x, c) = (x @ t, c)"
  by (simp add: followed_def)

lemma rmatch_stops:
  assumes "t = [] \<or> \<not> accepts r (hd t)"
  shows "rmatch r (s @ t, cs) = map (followed t) (rmatch r (s, cs))"
  using assms
proof (induction r arbitrary: s cs)
  case Eps show ?case by simp
next
  case (Chr c) then show ?case by (cases s; cases t) auto
next
  case Dot then show ?case by (cases s; cases t) auto
next
  case (Cls M) then show ?case by (cases s; cases t) auto
next
  case (Seq a b)
  from Seq.prems have ta: "t = [] \<or> \<not> accepts a (hd t)" and tb: "t = [] \<or> \<not> accepts b (hd t)"
    by auto
  have "rmatch (Seq a b) (s @ t, cs)
        = concat (map (\<lambda>st. rmatch b (followed t st)) (rmatch a (s, cs)))"
    using Seq.IH(1)[OF ta, of s cs] by (simp add: comp_def)
  also have "\<dots> = concat (map (\<lambda>st. map (followed t) (rmatch b st)) (rmatch a (s, cs)))"
  proof (rule concat_map_cong_set)
    fix st assume "st \<in> set (rmatch a (s, cs))"
    obtain x c where st: "st = (x, c)" by (cases st)
    show "rmatch b (followed t st) = map (followed t) (rmatch b st)"
      using Seq.IH(2)[OF tb, of x c] by (simp add: st)
  qed
  also have "\<dots> = map (followed t) (rmatch (Seq a b) (s, cs))"
    by (simp add: map_concat comp_def)
  finally show ?case .
next
  case (Alt a b)
  then show ?case by auto
next
  case (Opt a)
  then show ?case by auto
next
  case (Star a)
  from Star.prems have ta: "t = [] \<or> \<not> accepts a (hd t)" by simp
  show ?case
  proof (induction "length s" arbitrary: s cs rule: less_induct)
    case less
    let ?f = "\<lambda>n st'. if length (fst st') < n then rmatch (Star a) st' else []"
    have "concat (map (?f (length (s @ t))) (rmatch a (s @ t, cs)))
          = concat (map (\<lambda>st. ?f (length (s @ t)) (followed t st)) (rmatch a (s, cs)))"
      using Star.IH[OF ta, of s cs] by (simp add: comp_def)
    also have "\<dots> = concat (map (\<lambda>st. map (followed t) (?f (length s) st)) (rmatch a (s, cs)))"
    proof (rule concat_map_cong_set)
      fix st assume "st \<in> set (rmatch a (s, cs))"
      obtain x c where st: "st = (x, c)" by (cases st)
      show "?f (length (s @ t)) (followed t st) = map (followed t) (?f (length s) st)"
      proof (cases "length x < length s")
        case True
        from less[OF True, of c] show ?thesis using True by (simp add: st)
      next
        case False then show ?thesis by (simp add: st)
      qed
    qed
    also have "\<dots> = map (followed t) (concat (map (?f (length s)) (rmatch a (s, cs))))"
      by (simp add: map_concat comp_def)
    finally show ?case by simp
  qed
next
  case (Grp i a)
  from Grp.prems have ta: "t = [] \<or> \<not> accepts a (hd t)" by simp
  have "\<And>x c. (x, c) \<in> set (rmatch a (s, cs)) \<Longrightarrow>
          take (length (s @ t) - length (x @ t)) (s @ t) = take (length s - length x) s"
    by (auto dest: rmatch_length)
  then show ?case using Grp.IH[OF ta, of s cs] by (auto simp: comp_def followed_def)
qed


subsection \<open>The same pattern with other group numbers\<close>

fun relabel :: "(nat \<Rightarrow> nat) \<Rightarrow> regex \<Rightarrow> regex" where
  "relabel f (Grp i a) = Grp (f i) (relabel f a)"
| "relabel f (Seq a b) = Seq (relabel f a) (relabel f b)"
| "relabel f (Alt a b) = Alt (relabel f a) (relabel f b)"
| "relabel f (Opt a) = Opt (relabel f a)"
| "relabel f (Star a) = Star (relabel f a)"
| "relabel f r = r"

definition renamed :: "(nat \<Rightarrow> nat) \<Rightarrow> mstate \<Rightarrow> mstate" where
  "renamed f st = (fst st, map (apfst f) (snd st))"

lemma renamed_simp [simp]: "renamed f (x, c) = (x, map (apfst f) c)"
  by (simp add: renamed_def)

lemma rmatch_relabel: "rmatch (relabel f r) (s, []) = map (renamed f) (rmatch r (s, []))"
proof (induction r arbitrary: s)
  case (Seq a b)
  have "rmatch (relabel f (Seq a b)) (s, [])
        = concat (map (\<lambda>st. rmatch (relabel f b) (renamed f st)) (rmatch a (s, [])))"
    using Seq.IH(1)[of s] by (simp add: comp_def)
  also have "\<dots> = concat (map (\<lambda>st. map (renamed f) (rmatch b st)) (rmatch a (s, [])))"
  proof (rule concat_map_cong_set)
    fix st assume "st \<in> set (rmatch a (s, []))"
    obtain x c where st: "st = (x, c)" by (cases st)
    have "rmatch (relabel f b) (x, map (apfst f) c)
          = map (onto (map (apfst f) c)) (map (renamed f) (rmatch b (x, [])))"
      using rmatch_onto[of "relabel f b" x "map (apfst f) c"] Seq.IH(2)[of x] by simp
    moreover have "rmatch b (x, c) = map (onto c) (rmatch b (x, []))" by (rule rmatch_onto)
    ultimately show "rmatch (relabel f b) (renamed f st) = map (renamed f) (rmatch b st)"
      by (simp add: st comp_def onto_def renamed_def)
  qed
  also have "\<dots> = map (renamed f) (rmatch (Seq a b) (s, []))"
    by (simp add: map_concat comp_def)
  finally show ?case .
next
  case (Star a)
  show ?case
  proof (induction "length s" arbitrary: s rule: less_induct)
    case less
    let ?g = "\<lambda>r n st'. if length (fst st') < n then rmatch (Star r) st' else []"
    have "concat (map (?g (relabel f a) (length s)) (rmatch (relabel f a) (s, [])))
          = concat (map (\<lambda>st. ?g (relabel f a) (length s) (renamed f st)) (rmatch a (s, [])))"
      using Star.IH[of s] by (simp add: comp_def)
    also have "\<dots> = concat (map (\<lambda>st. map (renamed f) (?g a (length s) st)) (rmatch a (s, [])))"
    proof (rule concat_map_cong_set)
      fix st assume "st \<in> set (rmatch a (s, []))"
      obtain x c where st: "st = (x, c)" by (cases st)
      show "?g (relabel f a) (length s) (renamed f st) = map (renamed f) (?g a (length s) st)"
      proof (cases "length x < length s")
        case True
        have "rmatch (Star (relabel f a)) (x, map (apfst f) c)
              = map (onto (map (apfst f) c)) (map (renamed f) (rmatch (Star a) (x, [])))"
          using rmatch_onto[of "Star (relabel f a)" x "map (apfst f) c"] less[OF True] by simp
        moreover have "rmatch (Star a) (x, c) = map (onto c) (rmatch (Star a) (x, []))"
          by (rule rmatch_onto)
        ultimately show ?thesis using True by (simp add: st comp_def onto_def renamed_def)
      next
        case False then show ?thesis by (simp add: st)
      qed
    qed
    also have "\<dots> = map (renamed f) (concat (map (?g a (length s)) (rmatch a (s, []))))"
      by (simp add: map_concat comp_def)
    finally show ?case by simp
  qed
next
  case (Grp i a)
  show ?case using Grp.IH[of s] by (simp add: comp_def renamed_def)
next
  case Eps show ?case by simp
next
  case (Chr c) show ?case by (cases s) auto
next
  case Dot show ?case by (cases s) auto
next
  case (Cls M) show ?case by (cases s) auto
next
  case (Alt a b) show ?case using Alt.IH(1)[of s] Alt.IH(2)[of s] by simp
next
  case (Opt a) show ?case using Opt.IH[of s] by simp
qed

subsection \<open>How a match can begin\<close>

fun nullable :: "regex \<Rightarrow> bool" where
  "nullable Eps = True"
| "nullable (Chr c) = False"
| "nullable Dot = False"
| "nullable (Cls M) = False"
| "nullable (Seq a b) = (nullable a \<and> nullable b)"
| "nullable (Alt a b) = (nullable a \<or> nullable b)"
| "nullable (Opt a) = True"
| "nullable (Star a) = True"
| "nullable (Grp i a) = nullable a"

fun starts :: "regex \<Rightarrow> char \<Rightarrow> bool" where
  "starts Eps c = False"
| "starts (Chr x) c = (x = c)"
| "starts Dot c = (\<not> lineTerminator c)"
| "starts (Cls M) c = (c \<in> set M)"
| "starts (Seq a b) c = (starts a c \<or> (nullable a \<and> starts b c))"
| "starts (Alt a b) c = (starts a c \<or> starts b c)"
| "starts (Opt a) c = starts a c"
| "starts (Star a) c = starts a c"
| "starts (Grp i a) c = starts a c"

lemma rmatch_begin:
  "(x, c) \<in> set (rmatch r (s, cs)) \<Longrightarrow> (x = s \<and> nullable r) \<or> (s \<noteq> [] \<and> starts r (hd s))"
proof (induction r arbitrary: s cs x c)
  case (Seq a b)
  from Seq.prems obtain t ct where t: "(t, ct) \<in> set (rmatch a (s, cs))"
    and x: "(x, c) \<in> set (rmatch b (t, ct))" by auto
  from Seq.IH(1)[OF t] Seq.IH(2)[OF x] show ?case by auto
next
  case (Star a)
  show ?case
  proof (cases "(x, c) = (s, cs)")
    case True then show ?thesis by simp
  next
    case False
    with Star.prems obtain t ct where t: "(t, ct) \<in> set (rmatch a (s, cs))"
      and l: "length t < length s" by (auto split: if_splits)
    from Star.IH[OF t] l show ?thesis by auto
  qed
next
  case Eps then show ?case by simp
next
  case (Chr y) then show ?case by (cases s) (auto split: if_splits)
next
  case Dot then show ?case by (cases s) (auto split: if_splits)
next
  case (Cls M) then show ?case by (cases s) (auto split: if_splits)
next
  case (Alt a b)
  from Alt.prems have "(x, c) \<in> set (rmatch a (s, cs)) \<or> (x, c) \<in> set (rmatch b (s, cs))"
    by simp
  with Alt.IH(1)[of x c s cs] Alt.IH(2)[of x c s cs] show ?case by auto
next
  case (Opt a)
  from Opt.prems have "(x, c) \<in> set (rmatch a (s, cs)) \<or> (x, c) = (s, cs)" by auto
  with Opt.IH[of x c s cs] show ?case by auto
next
  case (Grp i a)
  from Grp.prems obtain c' where "(x, c') \<in> set (rmatch a (s, cs))" by auto
  from Grp.IH[OF this] show ?case by simp
qed

lemma rmatch_needs_start:
  assumes "\<not> nullable r" "s = [] \<or> \<not> starts r (hd s)"
  shows "rmatch r (s, cs) = []"
proof (rule ccontr)
  assume "rmatch r (s, cs) \<noteq> []"
  then obtain x c where "(x, c) \<in> set (rmatch r (s, cs))"
    by (cases "rmatch r (s, cs)") auto
  from rmatch_begin[OF this] assms show False by auto
qed

subsection \<open>The greedy dot\<close>

lemma rmatch_Star_Dot_stop:
  "s = [] \<or> lineTerminator (hd s) \<Longrightarrow> rmatch (Star Dot) (s, cs) = [(s, cs)]"
  by (cases s) auto

lemma rmatch_Star_Dot_Cons:
  "\<not> lineTerminator x \<Longrightarrow> rmatch (Star Dot) (x # s, cs) = rmatch (Star Dot) (s, cs) @ [(x # s, cs)]"
  by simp

lemma rmatch_dots_stop:
  "s = [] \<or> lineTerminator (hd s) \<Longrightarrow> rmatch (Seq (Star Dot) r) (s, cs) = rmatch r (s, cs)"
  using rmatch_Star_Dot_stop[of s cs] by (simp del: rmatch.simps(8) add: rmatch.simps(5))

lemma rmatch_dots_Cons:
  "\<not> lineTerminator x \<Longrightarrow>
   rmatch (Seq (Star Dot) r) (x # s, cs) = rmatch (Seq (Star Dot) r) (s, cs) @ rmatch r (x # s, cs)"
  using rmatch_Star_Dot_Cons[of x s cs] by (simp del: rmatch.simps(8) add: rmatch.simps(5))

lemma rmatch_Star_Dot_nonempty: "rmatch (Star Dot) (s, cs) \<noteq> []"
  by simp

definition lineFree :: "string \<Rightarrow> bool" where
  "lineFree s = list_all (\<lambda>c. \<not> lineTerminator c) s"

lemma lineFree_simps [simp]:
  "lineFree []" "lineFree (x # s) = (\<not> lineTerminator x \<and> lineFree s)"
  "lineFree (s @ t) = (lineFree s \<and> lineFree t)"
  by (auto simp: lineFree_def)

text \<open>On one line, the greedy dot reads to the end of the line.\<close>

lemma rmatch_Star_Dot_line:
  "lineFree s \<Longrightarrow> \<exists>more. rmatch (Star Dot) (s, cs) = ([], cs) # more"
proof (induction s)
  case Nil show ?case by simp
next
  case (Cons x s)
  then obtain more where "rmatch (Star Dot) (s, cs) = ([], cs) # more" by auto
  with Cons.prems show ?case by (simp del: rmatch.simps(8) add: rmatch_Star_Dot_Cons)
qed


subsection \<open>The preferred match of a sequence\<close>

lemma concat_first:
  "concat xss = y # ys \<Longrightarrow> \<exists>xs \<in> set xss. \<exists>ys'. xs = y # ys'"
  by (induction xss) (auto simp: append_eq_Cons_conv)

lemma rmatch_Seq_first:
  assumes "rmatch (Seq a b) (s, cs) = y # ys"
  shows "\<exists>t ct more. (t, ct) \<in> set (rmatch a (s, cs)) \<and> rmatch b (t, ct) = y # more"
proof -
  from assms have "concat (map (rmatch b) (rmatch a (s, cs))) = y # ys" by simp
  from concat_first[OF this] show ?thesis by auto
qed

lemma rmatch_Seq_hit:
  assumes "rmatch a st = x # xs" "rmatch b x = y # ys"
  shows "\<exists>more. rmatch (Seq a b) st = y # more"
  using assms by (cases st) simp

lemma rmatch_suffix_lineFree:
  "(x, c) \<in> set (rmatch r (s, cs)) \<Longrightarrow> lineFree s \<Longrightarrow> lineFree x"
  by (auto dest: rmatch_suffix)

lemma rmatch_Eps_any [simp]: "rmatch Eps st = [st]"
  by (cases st) simp

lemma rmatch_Seq_Eps: "rmatch (Seq a Eps) (s, cs) = rmatch a (s, cs)"
proof -
  have "concat (map (rmatch Eps) xs) = xs" for xs :: "mstate list"
    by (induction xs) auto
  then show ?thesis by (simp del: rmatch.simps(8))
qed

text \<open>A pattern that ends in the greedy dot reads a line to its end.\<close>

definition endsLine :: "regex \<Rightarrow> bool" where
  "endsLine r = (\<forall>s cs x c more. lineFree s \<and> rmatch r (s, cs) = (x, c) # more \<longrightarrow> x = [])"

lemma endsLine_dots: "endsLine (Seq (Star Dot) Eps)"
  unfolding endsLine_def
proof (intro allI impI)
  fix s cs x c more
  assume a: "lineFree s \<and> rmatch (Seq (Star Dot) Eps) (s, cs) = (x, c) # more"
  have "rmatch (Seq (Star Dot) Eps) (s, cs) = rmatch (Star Dot) (s, cs)"
    by (rule rmatch_Seq_Eps)
  with a rmatch_Star_Dot_line[of s cs] show "x = []" by auto
qed

lemma endsLine_Seq: "endsLine b \<Longrightarrow> endsLine (Seq a b)"
  unfolding endsLine_def
proof (intro allI impI)
  fix s cs x c more
  assume b: "\<forall>s cs x c more. lineFree s \<and> rmatch b (s, cs) = (x, c) # more \<longrightarrow> x = []"
    and a: "lineFree s \<and> rmatch (Seq a b) (s, cs) = (x, c) # more"
  from rmatch_Seq_first[of a b s cs "(x, c)" more] a obtain t ct more' where
    t: "(t, ct) \<in> set (rmatch a (s, cs))" and m: "rmatch b (t, ct) = (x, c) # more'" by blast
  from rmatch_suffix_lineFree[OF t] a have "lineFree t" by simp
  with b m show "x = []" by blast
qed

subsection \<open>Patterns with one group\<close>

fun groupFree :: "regex \<Rightarrow> bool" where
  "groupFree (Grp i a) = False"
| "groupFree (Seq a b) = (groupFree a \<and> groupFree b)"
| "groupFree (Alt a b) = (groupFree a \<and> groupFree b)"
| "groupFree (Opt a) = groupFree a"
| "groupFree (Star a) = groupFree a"
| "groupFree r = True"

lemma groupFree_captures:
  "groupFree r \<Longrightarrow> (x, c) \<in> set (rmatch r (s, cs)) \<Longrightarrow> c = cs"
proof (induction r arbitrary: s cs x c)
  case (Seq a b)
  from Seq.prems obtain t ct where t: "(t, ct) \<in> set (rmatch a (s, cs))"
    and x: "(x, c) \<in> set (rmatch b (t, ct))" by auto
  from Seq.IH(1)[OF _ t] Seq.IH(2)[OF _ x] Seq.prems(1) show ?case by simp
next
  case (Star a)
  from Star.prems(2) show ?case
  proof (induction "length s" arbitrary: s cs rule: less_induct)
    case less
    show ?case
    proof (cases "(x, c) = (s, cs)")
      case True then show ?thesis by simp
    next
      case False
      with less.prems obtain t ct where t: "(t, ct) \<in> set (rmatch a (s, cs))"
        and l: "length t < length s" and x: "(x, c) \<in> set (rmatch (Star a) (t, ct))"
        by (auto split: if_splits)
      from Star.IH[OF _ t] Star.prems(1) have "ct = cs" by simp
      with less.hyps[OF l x] show ?thesis by simp
    qed
  qed
next
  case (Chr y) then show ?case by (cases s) (auto split: if_splits)
next
  case Dot then show ?case by (cases s) (auto split: if_splits)
next
  case (Cls M) then show ?case by (cases s) (auto split: if_splits)
next
  case (Alt a b)
  from Alt.prems have "(x, c) \<in> set (rmatch a (s, cs)) \<or> (x, c) \<in> set (rmatch b (s, cs))"
    by simp
  with Alt.IH(1)[of x c s cs] Alt.IH(2)[of x c s cs] Alt.prems(1) show ?case by auto
next
  case (Opt a)
  from Opt.prems have "(x, c) \<in> set (rmatch a (s, cs)) \<or> (x, c) = (s, cs)" by auto
  with Opt.IH[of x c s cs] Opt.prems(1) show ?case by auto
qed auto

definition oneGroup :: "nat \<Rightarrow> regex \<Rightarrow> bool" where
  "oneGroup g r = (\<forall>s cs x c. (x, c) \<in> set (rmatch r (s, cs)) \<longrightarrow> (\<exists>d. c = (g, d) # cs))"

lemma oneGroup_Grp: "groupFree a \<Longrightarrow> groupFree b \<Longrightarrow> oneGroup g (Seq (Grp g a) b)"
  unfolding oneGroup_def
proof (intro allI impI)
  fix s cs x c
  assume gf: "groupFree a" "groupFree b" and m: "(x, c) \<in> set (rmatch (Seq (Grp g a) b) (s, cs))"
  from m obtain t ct where t: "(t, ct) \<in> set (rmatch (Grp g a) (s, cs))"
    and x: "(x, c) \<in> set (rmatch b (t, ct))" by auto
  from t obtain c' where c': "(t, c') \<in> set (rmatch a (s, cs))"
    and ct: "ct = (g, take (length s - length t) s) # c'" by auto
  from groupFree_captures[OF gf(1) c'] groupFree_captures[OF gf(2) x] ct
  show "\<exists>d. c = (g, d) # cs" by simp
qed

lemma oneGroup_Seq: "groupFree a \<Longrightarrow> oneGroup g b \<Longrightarrow> oneGroup g (Seq a b)"
  unfolding oneGroup_def
proof (intro allI impI)
  fix s cs x c
  assume gf: "groupFree a"
    and b: "\<forall>s cs x c. (x, c) \<in> set (rmatch b (s, cs)) \<longrightarrow> (\<exists>d. c = (g, d) # cs)"
    and m: "(x, c) \<in> set (rmatch (Seq a b) (s, cs))"
  from m obtain t ct where t: "(t, ct) \<in> set (rmatch a (s, cs))"
    and x: "(x, c) \<in> set (rmatch b (t, ct))" by auto
  from groupFree_captures[OF gf t] b x show "\<exists>d. c = (g, d) # cs" by blast
qed

lemma groupFree_str [simp]: "groupFree (str L)"
  by (induction L) simp_all

lemma accepts_str [simp]: "accepts (str L) c = (c \<in> set L)"
  by (induction L) auto

lemma relabel_str [simp]: "relabel f (str L) = str L"
  by (induction L) simp_all

declare rmatch.simps [simp del]

subsection \<open>A text after the URL that does not change the number\<close>

definition firstCaptures :: "mstate list \<Rightarrow> captures list" where
  "firstCaptures sts = map snd (take 1 sts)"

lemma firstCaptures_simps [simp]:
  "firstCaptures [] = []" "firstCaptures (st # sts) = [snd st]"
  by (simp_all add: firstCaptures_def)

lemma firstCaptures_Nil_iff [simp]: "firstCaptures sts = [] \<longleftrightarrow> sts = []"
  by (cases sts) simp_all

lemma firstCaptures_append:
  "firstCaptures (A @ B) = (if A = [] then firstCaptures B else firstCaptures A)"
  by (cases A) simp_all

lemma firstCaptures_concat:
  "(\<And>x. x \<in> set xs \<Longrightarrow> firstCaptures (f x) = firstCaptures (g x))
   \<Longrightarrow> firstCaptures (concat (map f xs)) = firstCaptures (concat (map g xs))"
proof (induction xs)
  case Nil show ?case by simp
next
  case (Cons x xs)
  have x: "firstCaptures (f x) = firstCaptures (g x)" by (rule Cons.prems) simp
  then have e: "f x = [] \<longleftrightarrow> g x = []" by (metis firstCaptures_Nil_iff)
  have "firstCaptures (concat (map f xs)) = firstCaptures (concat (map g xs))"
    by (rule Cons.IH) (simp add: Cons.prems)
  with x e show ?case by (simp add: firstCaptures_append)
qed

definition sameFirst :: "regex \<Rightarrow> string \<Rightarrow> bool" where
  "sameFirst r T = (\<forall>u cs. lineFree u \<longrightarrow>
     firstCaptures (rmatch r (u @ T, cs)) = firstCaptures (rmatch r (u, cs)))"

definition carries :: "regex \<Rightarrow> string \<Rightarrow> bool" where
  "carries r T = (\<forall>u cs. rmatch r (u @ T, cs) = map (followed T) (rmatch r (u, cs)))"

lemma carries_stops: "T = [] \<or> \<not> accepts r (hd T) \<Longrightarrow> carries r T"
  unfolding carries_def using rmatch_stops by blast

lemma sameFirst_Seq:
  assumes "carries a T" "sameFirst b T"
  shows "sameFirst (Seq a b) T"
  unfolding sameFirst_def
proof (intro allI impI)
  fix u cs assume u: "lineFree u"
  have "rmatch (Seq a b) (u @ T, cs)
        = concat (map (\<lambda>st. rmatch b (followed T st)) (rmatch a (u, cs)))"
    using assms(1) by (simp add: carries_def comp_def rmatch.simps(5))
  moreover have "firstCaptures (concat (map (\<lambda>st. rmatch b (followed T st)) (rmatch a (u, cs))))
        = firstCaptures (concat (map (rmatch b) (rmatch a (u, cs))))"
  proof (rule firstCaptures_concat)
    fix st assume "st \<in> set (rmatch a (u, cs))"
    obtain x c where st: "st = (x, c)" by (cases st)
    with \<open>st \<in> set (rmatch a (u, cs))\<close> u have "lineFree x"
      by (auto dest: rmatch_suffix_lineFree)
    with assms(2) show "firstCaptures (rmatch b (followed T st)) = firstCaptures (rmatch b st)"
      by (simp add: st sameFirst_def)
  qed
  ultimately show "firstCaptures (rmatch (Seq a b) (u @ T, cs))
                   = firstCaptures (rmatch (Seq a b) (u, cs))" by (simp add: rmatch.simps(5))
qed

definition needsSlash :: "regex \<Rightarrow> bool" where
  "needsSlash r = (\<not> nullable r \<and> (\<forall>c. starts r c \<longrightarrow> c = CHR ''/''))"

lemma needsSlash_fails:
  "needsSlash r \<Longrightarrow> s = [] \<or> hd s \<noteq> CHR ''/'' \<Longrightarrow> rmatch r (s, cs) = []"
  by (rule rmatch_needs_start) (auto simp: needsSlash_def)

lemma dots_without_slash:
  assumes "needsSlash r" "lineFree T" "CHR ''/'' \<notin> set T"
  shows "rmatch (Seq (Star Dot) r) (T, cs) = []"
  using assms(2,3)
proof (induction T)
  case Nil
  show ?case using needsSlash_fails[OF assms(1), of "[]" cs] by (simp add: rmatch_dots_stop)
next
  case (Cons x T)
  from Cons.prems have x: "\<not> lineTerminator x" "x \<noteq> CHR ''/''" by auto
  from Cons have "rmatch (Seq (Star Dot) r) (T, cs) = []" by simp
  moreover have "rmatch r (x # T, cs) = []"
    using needsSlash_fails[OF assms(1), of "x # T" cs] x by simp
  ultimately show ?case using x by (simp add: rmatch_dots_Cons)
qed

lemma sameFirst_dots:
  assumes "sameFirst r T" "needsSlash r" "lineFree T" "CHR ''/'' \<notin> set T"
  shows "sameFirst (Seq (Star Dot) r) T"
  unfolding sameFirst_def
proof (intro allI impI)
  fix u cs assume "lineFree u"
  then show "firstCaptures (rmatch (Seq (Star Dot) r) (u @ T, cs))
             = firstCaptures (rmatch (Seq (Star Dot) r) (u, cs))"
  proof (induction u)
    case Nil
    show ?case
      using dots_without_slash[OF assms(2,3,4), of cs] needsSlash_fails[OF assms(2), of "[]" cs]
      by (simp add: rmatch_dots_stop)
  next
    case (Cons x u)
    from Cons.prems have x: "\<not> lineTerminator x" and u: "lineFree u" by simp_all
    have r: "firstCaptures (rmatch r (x # u @ T, cs)) = firstCaptures (rmatch r (x # u, cs))"
      using assms(1)[unfolded sameFirst_def, rule_format, OF Cons.prems, of cs] by simp
    have i: "firstCaptures (rmatch (Seq (Star Dot) r) (u @ T, cs))
             = firstCaptures (rmatch (Seq (Star Dot) r) (u, cs))" by (rule Cons.IH[OF u])
    then have e: "rmatch (Seq (Star Dot) r) (u @ T, cs) = []
                  \<longleftrightarrow> rmatch (Seq (Star Dot) r) (u, cs) = []"
      by (metis firstCaptures_Nil_iff)
    show ?case
      using r i e x by (simp add: rmatch_dots_Cons firstCaptures_append)
  qed
qed

lemma firstCaptures_Star_Dot: "firstCaptures (rmatch (Star Dot) (s, cs)) = [cs]"
proof (induction s)
  case Nil show ?case by (simp add: rmatch_Star_Dot_stop)
next
  case (Cons x s)
  show ?case
  proof (cases "lineTerminator x")
    case True then show ?thesis by (simp add: rmatch_Star_Dot_stop)
  next
    case False
    with Cons.IH show ?thesis
      by (simp add: rmatch_Star_Dot_Cons firstCaptures_append)
  qed
qed

lemma sameFirst_end: "sameFirst (Seq (Star Dot) Eps) T"
  by (simp add: sameFirst_def rmatch_Seq_Eps firstCaptures_Star_Dot)

lemma needsSlash_Chr: "needsSlash (Seq (Chr CHR ''/'') r)"
  by (simp add: needsSlash_def)

lemma sameFirst_PULL_REQUEST_SOURCE:
  assumes "T = [] \<or> hd T = CHR '' ''" "lineFree T" "CHR ''/'' \<notin> set T"
  shows "sameFirst (PULL_REQUEST_SOURCE g) T"
proof -
  have sp: "\<And>r. \<not> accepts r CHR '' '' \<Longrightarrow> carries r T"
    using assms(1) by (auto intro: carries_stops)
  show ?thesis
    unfolding PULL_REQUEST_SOURCE_def GITHUB_BASE_URL_REGEX_def
    apply (simp only: seqs_Cons seqs_Nil)
    apply (rule sameFirst_Seq)
     apply (rule sp, simp)
    apply (rule sameFirst_Seq)
     apply (rule sp, simp)
    apply (rule sameFirst_dots[OF _ needsSlash_Chr assms(2,3)])
    apply (rule sameFirst_Seq)
     apply (rule sp, simp)
    apply (rule sameFirst_dots[OF _ _ assms(2,3)])
     apply (rule sameFirst_Seq)
      apply (rule sp, simp)
     apply (rule sameFirst_Seq)
      apply (rule sp, simp add: Plus_def digits_def)
     apply (rule sameFirst_end)
    apply (simp add: needsSlash_def)
    done
qed

subsection \<open>The URL patterns\<close>

lemma ngroups_str [simp]: "ngroups (str L) = 0"
  by (induction L) simp_all

lemma nullable_str [simp]: "nullable (str L) = (L = [])"
  by (induction L) simp_all

lemma starts_str [simp]: "starts (str L) c = (L \<noteq> [] \<and> hd L = c)"
  by (induction L) auto

lemma endsLine_PULL_REQUEST_SOURCE: "endsLine (PULL_REQUEST_SOURCE g)"
  unfolding PULL_REQUEST_SOURCE_def
  by (simp only: seqs_Cons seqs_Nil) (intro endsLine_Seq endsLine_dots)

lemma endsLine_ISSUE_OR_PULL_REQUEST_SOURCE: "endsLine (ISSUE_OR_PULL_REQUEST_SOURCE g)"
  unfolding ISSUE_OR_PULL_REQUEST_SOURCE_def
  by (simp only: seqs_Cons seqs_Nil) (intro endsLine_Seq endsLine_dots)

lemma oneGroup_PULL_REQUEST_SOURCE: "oneGroup g (PULL_REQUEST_SOURCE g)"
  unfolding PULL_REQUEST_SOURCE_def GITHUB_BASE_URL_REGEX_def
  by (simp only: seqs_Cons seqs_Nil)
     (intro oneGroup_Seq oneGroup_Grp; simp add: Plus_def)

lemma oneGroup_ISSUE_OR_PULL_REQUEST_SOURCE: "oneGroup g (ISSUE_OR_PULL_REQUEST_SOURCE g)"
  unfolding ISSUE_OR_PULL_REQUEST_SOURCE_def GITHUB_BASE_URL_REGEX_def
  by (simp only: seqs_Cons seqs_Nil)
     (intro oneGroup_Seq oneGroup_Grp; simp add: Plus_def)

lemma accepts_PULL_REQUEST_SOURCE:
  "lineTerminator c \<Longrightarrow> \<not> accepts (PULL_REQUEST_SOURCE g) c"
  by (auto simp: PULL_REQUEST_SOURCE_def GITHUB_BASE_URL_REGEX_def Plus_def digits_def
      lineTerminator_def CR_def LF_def)

lemma accepts_ISSUE_OR_PULL_REQUEST_SOURCE:
  "lineTerminator c \<Longrightarrow> \<not> accepts (ISSUE_OR_PULL_REQUEST_SOURCE g) c"
  by (auto simp: ISSUE_OR_PULL_REQUEST_SOURCE_def GITHUB_BASE_URL_REGEX_def Plus_def digits_def
      lineTerminator_def CR_def LF_def)

lemma relabel_PULL_REQUEST_SOURCE:
  "relabel (\<lambda>_. g) (PULL_REQUEST_SOURCE 1) = PULL_REQUEST_SOURCE g"
  by (simp add: PULL_REQUEST_SOURCE_def GITHUB_BASE_URL_REGEX_def Plus_def)

lemma relabel_ISSUE_OR_PULL_REQUEST_SOURCE:
  "relabel (\<lambda>_. g) (ISSUE_OR_PULL_REQUEST_SOURCE 1) = ISSUE_OR_PULL_REQUEST_SOURCE g"
  by (simp add: ISSUE_OR_PULL_REQUEST_SOURCE_def GITHUB_BASE_URL_REGEX_def Plus_def)

lemma ngroups_sources [simp]:
  "ngroups (PULL_REQUEST_SOURCE g) = g" "ngroups (ISSUE_OR_PULL_REQUEST_SOURCE g) = g"
  "ngroups (ISSUE_SOURCE g) = g"
  by (simp_all add: PULL_REQUEST_SOURCE_def ISSUE_OR_PULL_REQUEST_SOURCE_def ISSUE_SOURCE_def
      GITHUB_BASE_URL_REGEX_def Plus_def)

text \<open>
  A text begins with a URL of the pattern when the pattern matches at its first
  character. The text of the number is then the group of the preferred match.
\<close>

definition beginsWith :: "regex \<Rightarrow> string \<Rightarrow> bool" where
  "beginsWith r s = (rmatch r (s, []) \<noteq> [])"

definition numberText :: "regex \<Rightarrow> string \<Rightarrow> string" where
  "numberText r s = (case rmatch r (s, []) of [] \<Rightarrow> [] | st # _ \<Rightarrow> capture (snd st) 1)"

lemma beginsWith_first:
  assumes "beginsWith r s" "oneGroup 1 r"
  shows "\<exists>x more. rmatch r (s, []) = (x, [(1, numberText r s)]) # more"
proof -
  from assms(1) obtain x c more where m: "rmatch r (s, []) = (x, c) # more"
    by (cases "rmatch r (s, [])") (auto simp: beginsWith_def)
  then have "(x, c) \<in> set (rmatch r (s, []))" by simp
  with assms(2) obtain d where "c = [(1, d)]" unfolding oneGroup_def by blast
  with m show ?thesis by (simp add: numberText_def capture_def)
qed

lemma number_of_URL:
  assumes "beginsWith r s" "oneGroup 1 r" "ngroups r = 1"
  shows "match_array r s = Some [Some (take (length s - length (fst (hd (rmatch r (s, []))))) s),
                                 Some (numberText r s)]"
proof -
  from beginsWith_first[OF assms(1,2)] obtain x more where
    m: "rmatch r (s, []) = (x, [(1, numberText r s)]) # more" by blast
  from search_hit[OF m, of "[]"] show ?thesis
    by (simp add: match_array_def assms(3) m)
qed

lemma getPullRequestNumberFromURL_begins:
  "beginsWith PULL_REQUEST_REGEX URL \<Longrightarrow>
   getPullRequestNumberFromURL URL = Inr (parseInt (numberText PULL_REQUEST_REGEX URL))"
  using number_of_URL[of PULL_REQUEST_REGEX URL] oneGroup_PULL_REQUEST_SOURCE[of 1]
  by (simp add: getPullRequestNumberFromURL_def PULL_REQUEST_REGEX_def)

lemma getIssueOrPullRequestNumberFromURL_begins:
  "beginsWith ISSUE_OR_PULL_REQUEST_REGEX URL \<Longrightarrow>
   getIssueOrPullRequestNumberFromURL URL
     = Inr (parseInt (numberText ISSUE_OR_PULL_REQUEST_REGEX URL))"
  using number_of_URL[of ISSUE_OR_PULL_REQUEST_REGEX URL]
    oneGroup_ISSUE_OR_PULL_REQUEST_SOURCE[of 1]
  by (simp add: getIssueOrPullRequestNumberFromURL_def ISSUE_OR_PULL_REQUEST_REGEX_def)

text \<open>
  The URL pattern as the second group of a line pattern, on the rest of a line: the
  preferred match reads the line to its end, and its number is that of the URL when what
  follows the URL on the line cannot change it.
\<close>

lemma url_group_on_line:
  assumes rel: "\<And>g. relabel (\<lambda>_. g) R = r g"
    and e: "\<And>g. endsLine (r g)" and a: "\<And>g c. lineTerminator c \<Longrightarrow> \<not> accepts (r g) c"
    and b: "beginsWith R URL" and o: "oneGroup 1 R"
    and l: "lineFree (URL @ T)" and t: "t = [] \<or> lineTerminator (hd t)"
    and sf: "sameFirst (r 3) T"
  shows "\<exists>more. rmatch (Grp 2 (r 3)) (URL @ T @ t, cs)
                  = (t, (2, URL @ T) # (3, numberText R URL) # cs) # more"
proof -
  from beginsWith_first[OF b o] obtain x more where
    m: "rmatch R (URL, []) = (x, [(1, numberText R URL)]) # more" by blast
  have "rmatch (r 3) (URL, []) = map (renamed (\<lambda>_. 3)) (rmatch R (URL, []))"
    using rmatch_relabel[of "\<lambda>_. 3" R URL] by (simp only: rel)
  then have "firstCaptures (rmatch (r 3) (URL, [])) = [[(3, numberText R URL)]]"
    by (simp add: m)
  then have "firstCaptures (rmatch (r 3) (URL, cs)) = [(3, numberText R URL) # cs]"
    by (subst rmatch_onto) (cases "rmatch (r 3) (URL, [])", simp_all add: onto_def)
  moreover from l have "lineFree URL" by simp
  ultimately have "firstCaptures (rmatch (r 3) (URL @ T, cs)) = [(3, numberText R URL) # cs]"
    using sf by (simp add: sameFirst_def)
  then obtain y more' where
    y: "rmatch (r 3) (URL @ T, cs) = (y, (3, numberText R URL) # cs) # more'"
    by (cases "rmatch (r 3) (URL @ T, cs)") auto
  with e[of 3] l have "y = []" unfolding endsLine_def by blast
  have "rmatch (r 3) ((URL @ T) @ t, cs) = map (followed t) (rmatch (r 3) (URL @ T, cs))"
    by (rule rmatch_stops) (use t a[of "hd t" 3] in auto)
  with y \<open>y = []\<close> have
    "rmatch (r 3) (URL @ T @ t, cs) = (t, (3, numberText R URL) # cs) # map (followed t) more'"
    by simp
  then show ?thesis by (simp add: rmatch.simps(9))
qed

lemma sameFirst_Nil: "sameFirst r []"
  by (simp add: sameFirst_def)

subsection \<open>All matches of a line pattern in a text of lines\<close>

lemma search_pre:
  "search r pre s = map_option (\<lambda>(p, m, cs, rest). (pre @ p, m, cs, rest)) (search r [] s)"
proof (induction s arbitrary: pre)
  case Nil
  show ?case by (cases "rmatch r ([], [])") (simp_all add: search.simps)
next
  case (Cons x xs)
  show ?case
  proof (cases "rmatch r (x # xs, [])")
    case Nil
    have "search r pre (x # xs) = search r (pre @ [x]) xs" by (rule search_miss[OF Nil])
    moreover have "search r [] (x # xs) = search r ([] @ [x]) xs" by (rule search_miss[OF Nil])
    ultimately show ?thesis
      using Cons.IH[of "pre @ [x]"] Cons.IH[of "[x]"]
      by (cases "search r [] xs") (auto simp: option.map_comp comp_def split: prod.splits)
  next
    case (Cons st sts)
    then show ?thesis by (cases st) (simp add: search.simps)
  qed
qed

lemma match_all_skip:
  assumes "rmatch r (x # xs, []) = []"
  shows "match_all r (x # xs) = match_all r xs"
proof -
  have "search r [] (x # xs) = search r [x] xs" using search_miss[OF assms, of "[]"] by simp
  then have s: "search r [] (x # xs)
       = map_option (\<lambda>(p, m, cs, rest). ([x] @ p, m, cs, rest)) (search r [] xs)"
    using search_pre[of r "[x]" xs] by simp
  show ?thesis
    by (subst match_all.simps, subst (2) match_all.simps)
       (auto simp: s split: option.splits prod.splits)
qed

lemma match_all_lines:
  assumes n: "\<not> nullable P" and st: "\<not> starts P CR" "\<not> starts P LF"
    and hit: "\<And>e rest. e \<in> set es \<Longrightarrow>
               \<exists>more. rmatch P (line e @ CR # LF # rest, []) = (CR # LF # rest, caps e) # more"
    and ne: "\<And>e. e \<in> set es \<Longrightarrow> line e \<noteq> []"
  shows "match_all P (concat (map (\<lambda>e. line e @ CRLF) es)) = map (\<lambda>e. (line e, caps e)) es"
  using hit ne
proof (induction es)
  case Nil
  have "rmatch P ([], []) = []" by (rule rmatch_needs_start[OF n]) simp
  then have "search P [] [] = None" by (simp add: search.simps)
  then show ?case by (subst match_all.simps) simp
next
  case (Cons e es)
  let ?rest = "concat (map (\<lambda>e. line e @ CRLF) es)"
  from Cons.prems(1)[of e ?rest] obtain more where
    h: "rmatch P (line e @ CR # LF # ?rest, []) = (CR # LF # ?rest, caps e) # more" by auto
  from search_hit[OF h, of "[]"] have
    s: "search P [] (line e @ CR # LF # ?rest) = Some ([], line e, caps e, CR # LF # ?rest)"
    by simp
  have "rmatch P (CR # LF # ?rest, []) = []" by (rule rmatch_needs_start[OF n]) (simp add: st)
  moreover have "rmatch P (LF # ?rest, []) = []" by (rule rmatch_needs_start[OF n]) (simp add: st)
  ultimately have sk: "match_all P (CR # LF # ?rest) = match_all P ?rest"
    by (simp add: match_all_skip)
  have ih: "match_all P ?rest = map (\<lambda>e. (line e, caps e)) es"
    by (rule Cons.IH) (use Cons.prems in auto)
  have "match_all P (line e @ CR # LF # ?rest) = (line e, caps e) # match_all P (CR # LF # ?rest)"
    using Cons.prems(2)[of e] by (subst match_all.simps) (simp add: s)
  with sk ih show ?case by (simp add: CRLF_def)
qed

subsection \<open>The lines of a section\<close>

lemma Star_lines_first:
  assumes single: "\<And>l rest cs. l \<in> set ls \<Longrightarrow> rmatch Lr (l @ CR # LF # rest, cs) = [(rest, cs)]"
    and stop: "\<And>cs. rmatch Lr (X, cs) = []"
  shows "\<exists>more. rmatch (Star Lr) (concat (map (\<lambda>l. l @ CRLF) ls) @ X, cs) = (X, cs) # more"
  using single
proof (induction ls)
  case Nil
  show ?case by (simp add: rmatch.simps(8) stop)
next
  case (Cons l ls)
  let ?rest = "concat (map (\<lambda>l. l @ CRLF) ls) @ X"
  have s: "rmatch Lr (l @ CR # LF # ?rest, cs) = [(?rest, cs)]" by (rule Cons.prems) simp
  from Cons.IH obtain more where m: "rmatch (Star Lr) (?rest, cs) = (X, cs) # more"
    using Cons.prems by auto
  have "rmatch (Star Lr) (l @ CR # LF # ?rest, cs)
        = rmatch (Star Lr) (?rest, cs) @ [(l @ CR # LF # ?rest, cs)]"
    by (subst rmatch.simps(8)) (simp add: s)
  with m show ?case by (simp add: CRLF_def)
qed

lemma Plus_lines_first:
  assumes single: "\<And>l rest cs. l \<in> set ls \<Longrightarrow> rmatch Lr (l @ CR # LF # rest, cs) = [(rest, cs)]"
    and stop: "\<And>cs. rmatch Lr (X, cs) = []" and ne: "ls \<noteq> []"
  shows "\<exists>more. rmatch (Grp g (Plus Lr)) (concat (map (\<lambda>l. l @ CRLF) ls) @ X, cs)
                = (X, (g, concat (map (\<lambda>l. l @ CRLF) ls)) # cs) # more"
proof -
  from ne obtain l ls' where ls: "ls = l # ls'" by (cases ls) auto
  let ?rest = "concat (map (\<lambda>l. l @ CRLF) ls') @ X"
  have s: "rmatch Lr (l @ CR # LF # ?rest, cs) = [(?rest, cs)]" by (rule single) (simp add: ls)
  from Star_lines_first[of ls' Lr X cs] single stop obtain more where
    m: "rmatch (Star Lr) (?rest, cs) = (X, cs) # more" by (auto simp: ls)
  have "rmatch (Plus Lr) (l @ CR # LF # ?rest, cs) = (X, cs) # more"
    by (simp add: Plus_def rmatch.simps(5) s m)
  then show ?thesis by (simp add: rmatch.simps(9) ls CRLF_def)
qed

text \<open>The line of the pull request and deploy blocker sections, \<open>-.*\r?\n\<close>, and the line
  of the internal QA section, \<open>- \[[ x]].*\r?\n\<close>, read one line each and in one way.\<close>

lemma dots_to_line_end:
  assumes "lineFree l"
  shows "rmatch (Seq (Star Dot) (Seq (Opt (Chr CR)) (Seq (Chr LF) Eps))) (l @ CR # LF # rest, cs)
         = [(rest, cs)]"
  using assms
proof (induction l)
  case Nil
  have "lineTerminator CR" by (simp add: lineTerminator_def)
  then show ?case by (simp add: rmatch_dots_stop rmatch.simps CR_def LF_def)
next
  case (Cons x l)
  then have x: "\<not> lineTerminator x" by simp
  then have "x \<noteq> CR" "x \<noteq> LF" by (auto simp: lineTerminator_def)
  then have "rmatch (Seq (Opt (Chr CR)) (Seq (Chr LF) Eps)) (x # l @ CR # LF # rest, cs) = []"
    by (simp add: rmatch.simps)
  with Cons x show ?case by (simp add: rmatch_dots_Cons)
qed

lemma dash_line_single:
  "lineFree l \<Longrightarrow>
   rmatch (seqs [Chr CHR ''-'', Star Dot, Opt (Chr CR), Chr LF])
          ((CHR ''-'' # l) @ CR # LF # rest, cs) = [(rest, cs)]"
  using dots_to_line_end[of l rest cs] by (simp add: rmatch.simps(2,5))

lemma box_line_single:
  "lineFree l \<Longrightarrow> c = CHR '' '' \<or> c = CHR ''x'' \<Longrightarrow>
   rmatch (seqs [str ''- ['', Cls '' x'', Chr CHR '']'', Star Dot, Opt (Chr CR), Chr LF])
          ((''- ['' @ c # CHR '']'' # l) @ CR # LF # rest, cs) = [(rest, cs)]"
  using dots_to_line_end[of l rest cs] by (auto simp: rmatch.simps(2,4,5))

subsection \<open>Well-formed URLs and logins\<close>

text \<open>
  The entries that the theorems about reading a checklist speak of. The URL of a pull
  request (of an issue or pull request) is well formed when the pattern of the source
  matches at its first character and it holds no white space: the line patterns look for
  the URL right after the box. A login is well formed when it holds neither white space
  nor a slash: in the line of an internal QA pull request the login follows the URL, and
  the URL pattern reads on to the last \<open>/pull/\<close> of the line.
\<close>

definition noSpace :: "string \<Rightarrow> bool" where
  "noSpace s = list_all (\<lambda>c. c \<notin> set whitespace) s"

definition validPR :: "string \<Rightarrow> bool" where
  "validPR URL = (beginsWith PULL_REQUEST_REGEX URL \<and> noSpace URL)"

definition validIssueOrPR :: "string \<Rightarrow> bool" where
  "validIssueOrPR URL = (beginsWith ISSUE_OR_PULL_REQUEST_REGEX URL \<and> noSpace URL)"

definition validLogin :: "string \<Rightarrow> bool" where
  "validLogin login = (noSpace login \<and> CHR ''/'' \<notin> set login)"

lemma noSpace_lineFree: "noSpace s \<Longrightarrow> lineFree s"
  by (induction s) (auto simp: noSpace_def whitespace_def lineTerminator_def CR_def LF_def)

lemma noSpace_simps [simp]:
  "noSpace []" "noSpace (x # s) = (x \<notin> set whitespace \<and> noSpace s)"
  "noSpace (s @ t) = (noSpace s \<and> noSpace t)"
  by (auto simp: noSpace_def)

lemma checkbox_box: "checkbox b = ''- ['' @ box b @ '']''"
  by (simp add: checkbox_def box_def)

lemma box_cases: "box b = [if b then CHR ''x'' else CHR '' '']"
  by (simp add: box_def)

lemma capture_simps [simp]:
  "capture ((i, t) # cs) j = (if i = j then t else capture cs j)" "capture [] j = []"
  by (simp_all add: capture_def)

subsection \<open>One line of each list\<close>

lemma box_line_space:
  assumes "rmatch G (U, [(1, box b)]) = y # ys"
  shows "\<exists>ys'. rmatch (seqs [str ''- ['', Grp 1 (Cls '' x''), str ''] '', G])
                   (checkbox b @ '' '' @ U, []) = y # ys'"
  using assms
  by (cases b)
     (simp_all add: checkbox_def box_def rmatch_Seq_Eps rmatch.simps(2,4,5,9))

lemma box_line_whitespace:
  assumes "rmatch G (U, [(1, box b)]) = y # ys"
  shows "\<exists>ys'. rmatch (seqs [str ''- ['', Grp 1 (Cls '' x''), Chr CHR '']'', Cls whitespace, G])
                   (checkbox b @ '' '' @ U, []) = y # ys'"
  using assms
  by (cases b)
     (simp_all add: checkbox_def box_def rmatch_Seq_Eps rmatch.simps(2,4,5,9) whitespace_def)

lemma PR_LINE_on_line:
  assumes "validPR URL"
  shows "\<exists>more. rmatch PR_LINE (checkbox b @ '' '' @ URL @ CR # LF # rest, [])
           = (CR # LF # rest,
              [(2, URL), (3, numberText PULL_REQUEST_REGEX URL), (1, box b)]) # more"
proof -
  from assms have b: "beginsWith (PULL_REQUEST_SOURCE 1) URL" and l: "lineFree (URL @ [])"
    by (simp_all add: validPR_def PULL_REQUEST_REGEX_def noSpace_lineFree)
  have t: "CR # LF # rest = [] \<or> lineTerminator (hd (CR # LF # rest))"
    by (simp add: lineTerminator_def)
  from url_group_on_line[of "PULL_REQUEST_SOURCE 1" PULL_REQUEST_SOURCE URL "[]" "CR # LF # rest"
      "[(1, box b)]", OF relabel_PULL_REQUEST_SOURCE endsLine_PULL_REQUEST_SOURCE
      accepts_PULL_REQUEST_SOURCE b oneGroup_PULL_REQUEST_SOURCE l t sameFirst_Nil]
  obtain more where
    "rmatch (Grp 2 (PULL_REQUEST_SOURCE 3)) (URL @ CR # LF # rest, [(1, box b)])
       = (CR # LF # rest, [(2, URL), (3, numberText (PULL_REQUEST_SOURCE 1) URL), (1, box b)]) # more"
    by auto
  from box_line_space[OF this] show ?thesis
    by (simp add: PR_LINE_def PULL_REQUEST_REGEX_def del: seqs_Cons)
qed

lemma DEPLOY_BLOCKER_LINE_on_line:
  assumes "validIssueOrPR URL"
  shows "\<exists>more. rmatch DEPLOY_BLOCKER_LINE (checkbox b @ '' '' @ URL @ CR # LF # rest, [])
           = (CR # LF # rest,
              [(2, URL), (3, numberText ISSUE_OR_PULL_REQUEST_REGEX URL), (1, box b)]) # more"
proof -
  from assms have b: "beginsWith (ISSUE_OR_PULL_REQUEST_SOURCE 1) URL" and l: "lineFree (URL @ [])"
    by (simp_all add: validIssueOrPR_def ISSUE_OR_PULL_REQUEST_REGEX_def noSpace_lineFree)
  have t: "CR # LF # rest = [] \<or> lineTerminator (hd (CR # LF # rest))"
    by (simp add: lineTerminator_def)
  from url_group_on_line[of "ISSUE_OR_PULL_REQUEST_SOURCE 1" ISSUE_OR_PULL_REQUEST_SOURCE URL "[]"
      "CR # LF # rest" "[(1, box b)]", OF relabel_ISSUE_OR_PULL_REQUEST_SOURCE
      endsLine_ISSUE_OR_PULL_REQUEST_SOURCE accepts_ISSUE_OR_PULL_REQUEST_SOURCE b
      oneGroup_ISSUE_OR_PULL_REQUEST_SOURCE l t sameFirst_Nil]
  obtain more where
    "rmatch (Grp 2 (ISSUE_OR_PULL_REQUEST_SOURCE 3)) (URL @ CR # LF # rest, [(1, box b)])
       = (CR # LF # rest,
          [(2, URL), (3, numberText (ISSUE_OR_PULL_REQUEST_SOURCE 1) URL), (1, box b)]) # more"
    by auto
  from box_line_whitespace[OF this] show ?thesis
    by (simp add: DEPLOY_BLOCKER_LINE_def ISSUE_OR_PULL_REQUEST_REGEX_def del: seqs_Cons)
qed

lemma INTERNAL_QA_LINE_on_line:
  assumes "validPR URL" "validLogin login"
  shows "\<exists>more. rmatch INTERNAL_QA_LINE
                  (checkbox b @ '' '' @ URL @ '' - @'' @ login @ CR # LF # rest, [])
           = (CR # LF # rest,
              [(2, URL @ '' - @'' @ login), (3, numberText PULL_REQUEST_REGEX URL),
               (1, box b)]) # more"
proof -
  let ?T = "'' - @'' @ login"
  from assms have b: "beginsWith (PULL_REQUEST_SOURCE 1) URL" and l: "lineFree (URL @ ?T)"
    by (simp_all add: validPR_def validLogin_def PULL_REQUEST_REGEX_def noSpace_lineFree
        lineTerminator_def CR_def LF_def)
  have t: "CR # LF # rest = [] \<or> lineTerminator (hd (CR # LF # rest))"
    by (simp add: lineTerminator_def)
  have sf: "sameFirst (PULL_REQUEST_SOURCE 3) ?T"
    by (rule sameFirst_PULL_REQUEST_SOURCE)
       (use assms(2) l in \<open>auto simp: validLogin_def\<close>)
  from url_group_on_line[of "PULL_REQUEST_SOURCE 1" PULL_REQUEST_SOURCE URL ?T "CR # LF # rest"
      "[(1, box b)]", OF relabel_PULL_REQUEST_SOURCE endsLine_PULL_REQUEST_SOURCE
      accepts_PULL_REQUEST_SOURCE b oneGroup_PULL_REQUEST_SOURCE l t sf]
  obtain more where
    "rmatch (Grp 2 (PULL_REQUEST_SOURCE 3)) (URL @ ?T @ CR # LF # rest, [(1, box b)])
       = (CR # LF # rest,
          [(2, URL @ ?T), (3, numberText (PULL_REQUEST_SOURCE 1) URL), (1, box b)]) # more"
    by auto
  from box_line_whitespace[OF this] show ?thesis
    by (simp add: INTERNAL_QA_LINE_def PULL_REQUEST_REGEX_def del: seqs_Cons)
qed

subsection \<open>The entries of a section\<close>

lemma noSpace_dropWhile: "noSpace s \<Longrightarrow> dropWhile isSpace s = s"
  by (cases s) (simp_all add: isSpace_def)

lemma noSpace_rev [simp]: "noSpace (rev s) = noSpace s"
  by (simp add: noSpace_def)

lemma trim_noSpace: "noSpace s \<Longrightarrow> trim (s @ '' '') = s"
proof -
  assume s: "noSpace s"
  have sp: "isSpace CHR '' ''" by (simp add: isSpace_def whitespace_def)
  have "dropWhile isSpace (s @ '' '') = (if s = [] then [] else s @ '' '')"
    using s sp by (cases s) (simp_all add: isSpace_def)
  moreover have "dropWhile isSpace (rev (s @ '' '')) = rev s"
    using noSpace_dropWhile[of "rev s"] s sp by simp
  ultimately show ?thesis by (simp add: trim_def)
qed

lemma url_before_the_mention:
  assumes "noSpace URL" "CHR ''-'' \<notin> set URL"
  shows "trim (splitFirst CHR ''-'' (URL @ '' - @'' @ login)) = URL"
proof -
  from assms(2) have "takeWhile (\<lambda>x. x \<noteq> CHR ''-'') (URL @ '' - @'' @ login) = URL @ '' ''"
    by (induction URL) auto
  with trim_noSpace[OF assms(1)] show ?thesis by (simp add: splitFirst_def)
qed

lemma box_is_x [simp]: "(box b = ''x'') = b"
  by (simp add: box_def)

lemma line_pattern_facts:
  "\<not> nullable PR_LINE" "\<not> starts PR_LINE CR" "\<not> starts PR_LINE LF"
  "\<not> nullable DEPLOY_BLOCKER_LINE" "\<not> starts DEPLOY_BLOCKER_LINE CR" "\<not> starts DEPLOY_BLOCKER_LINE LF"
  "\<not> nullable INTERNAL_QA_LINE" "\<not> starts INTERNAL_QA_LINE CR" "\<not> starts INTERNAL_QA_LINE LF"
  by (simp_all add: PR_LINE_def DEPLOY_BLOCKER_LINE_def INTERNAL_QA_LINE_def CR_def LF_def)

lemma checkbox_not_Nil [simp]: "checkbox b \<noteq> []"
  by (simp add: checkbox_def)

lemma PR_lines:
  assumes "\<forall>URL \<in> set us. validPR URL"
  shows "match_all PR_LINE (concat (map (\<lambda>URL. checkbox (v URL) @ '' '' @ URL @ CRLF) us))
         = map (\<lambda>URL. (checkbox (v URL) @ '' '' @ URL,
                        [(2, URL), (3, numberText PULL_REQUEST_REGEX URL), (1, box (v URL))])) us"
  using match_all_lines[of PR_LINE us "\<lambda>URL. checkbox (v URL) @ '' '' @ URL"
      "\<lambda>URL. [(2, URL), (3, numberText PULL_REQUEST_REGEX URL), (1, box (v URL))]",
      OF line_pattern_facts(1-3)]
    PR_LINE_on_line assms
  by simp

lemma blocker_lines:
  assumes "\<forall>URL \<in> set us. validIssueOrPR URL"
  shows "match_all DEPLOY_BLOCKER_LINE (concat (map (\<lambda>URL. checkbox (v URL) @ '' '' @ URL @ CRLF) us))
         = map (\<lambda>URL. (checkbox (v URL) @ '' '' @ URL,
                        [(2, URL), (3, numberText ISSUE_OR_PULL_REQUEST_REGEX URL),
                         (1, box (v URL))])) us"
  using match_all_lines[of DEPLOY_BLOCKER_LINE us "\<lambda>URL. checkbox (v URL) @ '' '' @ URL"
      "\<lambda>URL. [(2, URL), (3, numberText ISSUE_OR_PULL_REQUEST_REGEX URL), (1, box (v URL))]",
      OF line_pattern_facts(4-6)]
    DEPLOY_BLOCKER_LINE_on_line assms
  by simp

lemma internalQA_lines:
  assumes "\<forall>(URL, merger) \<in> set es. validPR URL \<and> validLogin merger"
  shows "match_all INTERNAL_QA_LINE
           (concat (map (\<lambda>(URL, merger). checkbox (v URL) @ '' '' @ URL @ '' - '' @ (''@'' @ merger) @ CRLF) es))
         = map (\<lambda>(URL, merger). (checkbox (v URL) @ '' '' @ URL @ '' - @'' @ merger,
                        [(2, URL @ '' - @'' @ merger), (3, numberText PULL_REQUEST_REGEX URL),
                         (1, box (v URL))])) es"
proof -
  have "match_all INTERNAL_QA_LINE
          (concat (map (\<lambda>e. (checkbox (v (fst e)) @ '' '' @ fst e @ '' - @'' @ snd e) @ CRLF) es))
        = map (\<lambda>e. (checkbox (v (fst e)) @ '' '' @ fst e @ '' - @'' @ snd e,
                     [(2, fst e @ '' - @'' @ snd e), (3, numberText PULL_REQUEST_REGEX (fst e)),
                      (1, box (v (fst e)))])) es"
  proof (rule match_all_lines[OF line_pattern_facts(7-9)])
    fix e rest assume "e \<in> set es"
    with assms have "validPR (fst e)" "validLogin (snd e)" by auto
    from INTERNAL_QA_LINE_on_line[OF this, of "v (fst e)" rest]
    show "\<exists>more. rmatch INTERNAL_QA_LINE
             ((checkbox (v (fst e)) @ '' '' @ fst e @ '' - @'' @ snd e) @ CR # LF # rest, [])
           = (CR # LF # rest,
              [(2, fst e @ '' - @'' @ snd e), (3, numberText PULL_REQUEST_REGEX (fst e)),
               (1, box (v (fst e)))]) # more"
      by simp
  qed simp
  then show ?thesis by (simp add: case_prod_unfold)
qed

subsection \<open>Where a literal occurs in a text of lines\<close>

definition linesText :: "string list \<Rightarrow> string" where
  "linesText ls = concat (map (\<lambda>l. l @ CRLF) ls)"

lemma linesText_simps [simp]:
  "linesText [] = []" "linesText (l # ls) = l @ CR # LF # linesText ls"
  "linesText (ls @ ms) = linesText ls @ linesText ms"
  by (simp_all add: linesText_def CRLF_def)

fun occs :: "string \<Rightarrow> string \<Rightarrow> nat list" where
  "occs L [] = []"
| "occs L (x # xs) = (if prefix L (x # xs) then [0] else []) @ map Suc (occs L xs)"

lemma occs_iff: "L \<noteq> [] \<Longrightarrow> j \<in> set (occs L s) \<longleftrightarrow> prefix L (drop j s)"
proof (induction s arbitrary: j)
  case Nil then show ?case by simp
next
  case (Cons x xs)
  show ?case
  proof (cases j)
    case 0 then show ?thesis by auto
  next
    case (Suc i) with Cons.IH[OF Cons.prems, of i] show ?thesis by auto
  qed
qed

lemma sublist_drop: "sublist L s \<longleftrightarrow> (\<exists>j. prefix L (drop j s))"
proof
  assume "sublist L s"
  then obtain ps ss where "s = ps @ L @ ss" by (auto simp: sublist_def)
  then have "prefix L (drop (length ps) s)" by simp
  then show "\<exists>j. prefix L (drop j s)" ..
next
  assume "\<exists>j. prefix L (drop j s)"
  then obtain j t where "drop j s = L @ t" by (auto simp: prefix_def)
  then have "s = take j s @ L @ t" by (metis append_take_drop_id)
  then show "sublist L s" unfolding sublist_def by blast
qed

lemma occs_Nil: "L \<noteq> [] \<Longrightarrow> occs L s = [] \<Longrightarrow> \<not> sublist L s"
  using occs_iff[of L _ s] by (auto simp: sublist_drop)

lemma occs_single: "L \<noteq> [] \<Longrightarrow> occs L s = [j0] \<Longrightarrow> prefix L (drop j s) \<Longrightarrow> j = j0"
  using occs_iff[of L j s] by simp

lemma prefix_lineFree:
  assumes "lineFree L" "prefix L (a @ CR # b)"
  shows "prefix L a"
proof -
  from assms(2) have "prefix L a \<or> (\<exists>us. us \<noteq> [] \<and> prefix us (CR # b) \<and> L = a @ us)"
    by (auto simp: prefix_append)
  then show ?thesis
  proof
    assume "\<exists>us. us \<noteq> [] \<and> prefix us (CR # b) \<and> L = a @ us"
    then obtain us where us: "us \<noteq> []" "prefix us (CR # b)" "L = a @ us" by blast
    then obtain vs where "us = CR # vs" by (cases us) auto
    with us(3) assms(1) show ?thesis by (simp add: lineTerminator_def)
  qed simp
qed

lemma occurrence_in_lines:
  assumes "lineFree L" "L \<noteq> []" "prefix L (drop k (linesText ls))"
  shows "\<exists>A l B j. ls = A @ l # B \<and> k = length (linesText A) + j \<and> prefix L (drop j l)"
  using assms(3)
proof (induction ls arbitrary: k)
  case Nil with assms(2) show ?case by simp
next
  case (Cons l ls)
  consider "k \<le> length l" | "k = Suc (length l)" | "Suc (Suc (length l)) \<le> k" by linarith
  then show ?case
  proof cases
    case 1
    with Cons.prems have "prefix L (drop k l @ CR # LF # linesText ls)" by simp
    from prefix_lineFree[OF assms(1) this]
    show ?thesis by (intro exI[of _ "[]"] exI[of _ l] exI[of _ ls] exI[of _ k]) simp
  next
    case 2
    with Cons.prems have "prefix L (LF # linesText ls)" by simp
    with assms(1,2) show ?thesis by (cases L) (auto simp: lineTerminator_def)
  next
    case 3
    then obtain i where i: "k = Suc (Suc (length l)) + i" by (auto simp: le_iff_add)
    with Cons.prems have "prefix L (drop i (linesText ls))" by simp
    from Cons.IH[OF this] obtain A m B j where
      "ls = A @ m # B" "i = length (linesText A) + j" "prefix L (drop j m)" by blast
    with i show ?thesis
      by (intro exI[of _ "l # A"] exI[of _ m] exI[of _ B] exI[of _ j]) simp
  qed
qed

lemma split_unique:
  assumes "A @ h # B = A' @ l # B'" "P l" "\<forall>x \<in> set A. \<not> P x" "\<forall>x \<in> set B. \<not> P x"
  shows "A' = A \<and> l = h"
  using assms
proof (induction A arbitrary: A')
  case Nil then show ?case by (cases A') auto
next
  case (Cons a A) then show ?case by (cases A') auto
qed

definition lacks :: "string \<Rightarrow> string list \<Rightarrow> bool" where
  "lacks L ls = (\<forall>l \<in> set ls. \<not> sublist L l)"

lemma lacks_simps [simp]:
  "lacks L []" "lacks L (l # ls) = (\<not> sublist L l \<and> lacks L ls)"
  "lacks L (ls @ ms) = (lacks L ls \<and> lacks L ms)"
  by (auto simp: lacks_def)

lemma occurrence_unique:
  assumes L: "lineFree L" "L \<noteq> []" and A: "lacks L A" and B: "lacks L B"
    and h: "\<And>j. prefix L (drop j h) \<Longrightarrow> j = j0"
    and k: "prefix L (drop k (linesText (A @ h # B)))"
  shows "k = length (linesText A) + j0"
proof -
  from occurrence_in_lines[OF L k] obtain A' l B' j where
    s: "A @ h # B = A' @ l # B'" and kj: "k = length (linesText A') + j" and p: "prefix L (drop j l)"
    by blast
  from p have "sublist L l" by (auto simp: sublist_drop)
  from split_unique[OF s, of "sublist L", OF this] A B have "A' = A" "l = h"
    by (auto simp: lacks_def)
  with kj p h show ?thesis by simp
qed

lemma occurrence_nowhere:
  assumes L: "lineFree L" "L \<noteq> []" and A: "lacks L ls"
  shows "\<not> prefix L (drop k (linesText ls))"
proof
  assume "prefix L (drop k (linesText ls))"
  from occurrence_in_lines[OF L this] obtain A' l B' j where
    "ls = A' @ l # B'" "prefix L (drop j l)" by blast
  with A show False by (auto simp: lacks_def sublist_drop)
qed

subsection \<open>Patterns that need a literal\<close>

definition needs :: "regex \<Rightarrow> string \<Rightarrow> nat \<Rightarrow> bool" where
  "needs R L n = (\<forall>s cs. rmatch R (s, cs) \<noteq> [] \<longrightarrow> prefix L (drop n s))"

lemma needs_str: "needs (Seq (str L) r) L 0"
  by (simp add: needs_def rmatch_str_Seq)

lemma needs_str_end: "needs (str L) L 0"
  by (simp add: needs_def rmatch_str)

lemma needs_Chr: "needs r L n \<Longrightarrow> needs (Seq (Chr c) r) L (Suc n)"
  unfolding needs_def
proof (intro allI impI)
  fix s cs assume a: "\<forall>s cs. rmatch r (s, cs) \<noteq> [] \<longrightarrow> prefix L (drop n s)"
    and b: "rmatch (Seq (Chr c) r) (s, cs) \<noteq> []"
  then show "prefix L (drop (Suc n) s)"
    by (cases s) (auto simp: rmatch.simps(2,5) split: if_splits)
qed

lemma needs_Cls: "needs r L n \<Longrightarrow> needs (Seq (Cls M) r) L (Suc n)"
  unfolding needs_def
proof (intro allI impI)
  fix s cs assume a: "\<forall>s cs. rmatch r (s, cs) \<noteq> [] \<longrightarrow> prefix L (drop n s)"
    and b: "rmatch (Seq (Cls M) r) (s, cs) \<noteq> []"
  then show "prefix L (drop (Suc n) s)"
    by (cases s) (auto simp: rmatch.simps(4,5) split: if_splits)
qed

lemma needs_after: "needs r L n \<Longrightarrow> needs (Seq (str K) r) L (length K + n)"
  unfolding needs_def
proof (intro allI impI)
  fix s cs assume a: "\<forall>s cs. rmatch r (s, cs) \<noteq> [] \<longrightarrow> prefix L (drop n s)"
    and b: "rmatch (Seq (str K) r) (s, cs) \<noteq> []"
  then have "rmatch r (drop (length K) s, cs) \<noteq> []" by (auto simp: rmatch_str_Seq split: if_splits)
  with a have "prefix L (drop n (drop (length K) s))" by blast
  then show "prefix L (drop (length K + n) s)" by (simp add: add.commute)
qed

lemma search_found:
  assumes R: "needs R L n"
    and only: "\<And>k. prefix L (drop k (X @ Y)) \<Longrightarrow> k = length X + n"
    and hit: "rmatch R (Y, []) = (rest, cs) # sts"
  shows "search R [] (X @ Y) = Some (X, take (length Y - length rest) Y, cs, rest)"
proof -
  have "\<forall>k < length X. rmatch R (drop k (X @ Y), []) = []"
  proof (intro allI impI, rule ccontr)
    fix k assume k: "k < length X" and "rmatch R (drop k (X @ Y), []) \<noteq> []"
    with R have "prefix L (drop n (drop k (X @ Y)))" unfolding needs_def by blast
    then have "prefix L (drop (k + n) (X @ Y))" by (simp only: drop_drop add.commute)
    from only[OF this] k show False by simp
  qed
  from search_skip[OF this, of "[]"] search_hit[OF hit, of X] show ?thesis by simp
qed

lemma search_nowhere:
  assumes R: "needs R L n"
    and only: "\<And>k. prefix L (drop k (X @ Y)) \<Longrightarrow> k = length X + n"
    and miss: "rmatch R (Y, []) = []"
  shows "search R pre (X @ Y) = None"
proof -
  have "rmatch R (drop k (X @ Y), []) = []" for k
  proof (rule ccontr)
    assume a: "rmatch R (drop k (X @ Y), []) \<noteq> []"
    with R have "prefix L (drop n (drop k (X @ Y)))" unfolding needs_def by blast
    then have "prefix L (drop (k + n) (X @ Y))" by (simp only: drop_drop add.commute)
    from only[OF this] have "k = length X" by simp
    with a miss show False by simp
  qed
  then show ?thesis by (simp add: search_None_iff)
qed

lemma search_absent:
  assumes R: "needs R L n" and none: "\<And>k. \<not> prefix L (drop k s)"
  shows "search R pre s = None"
proof -
  have "rmatch R (drop k s, []) = []" for k
  proof (rule ccontr)
    assume a: "rmatch R (drop k s, []) \<noteq> []"
    with R have "prefix L (drop n (drop k s))" unfolding needs_def by blast
    then have "prefix L (drop (k + n) s)" by (simp only: drop_drop add.commute)
    with none show False by blast
  qed
  then show ?thesis by (simp add: search_None_iff)
qed

subsection \<open>A space and the character after it\<close>

fun noPair :: "char \<Rightarrow> char \<Rightarrow> string \<Rightarrow> bool" where
  "noPair x y [] = True"
| "noPair x y [a] = True"
| "noPair x y (a # b # s) = (\<not> (a = x \<and> b = y) \<and> noPair x y (b # s))"

lemma noPair_Cons: "noPair x y (a # s) = ((s = [] \<or> a \<noteq> x \<or> hd s \<noteq> y) \<and> noPair x y s)"
  by (cases s) auto

lemma noPair_append:
  "noPair x y (a @ b) = (noPair x y a \<and> noPair x y b \<and> (a = [] \<or> b = [] \<or> last a \<noteq> x \<or> hd b \<noteq> y))"
proof (induction a)
  case Nil show ?case by simp
next
  case (Cons c a)
  show ?case
  proof (cases a)
    case Nil then show ?thesis by (cases b) auto
  next
    case (Cons d a') with Cons.IH show ?thesis by auto
  qed
qed

lemma noPair_absent: "x \<notin> set s \<Longrightarrow> noPair x y s"
  by (induction x y s rule: noPair.induct) auto

lemma noPair_sublist: "noPair x y l \<Longrightarrow> \<not> sublist (p @ x # y # q) l"
proof
  assume n: "noPair x y l" and "sublist (p @ x # y # q) l"
  then obtain u v where "l = u @ (p @ x # y # q) @ v" by (auto simp: sublist_def)
  then have "l = (u @ p) @ (x # y # q @ v)" by simp
  with n have "noPair x y (x # y # q @ v)" by (simp only: noPair_append)
  then show False by simp
qed

subsection \<open>The lines of the generated body\<close>

text \<open>
  The body that \<open>generateStagingDeployCashBody\<close> writes is a text of lines, each ended by
  a carriage return and a line feed. The lines are named here, and the four parts of the
  body are shown to be the texts of their lines.
\<close>

definition releaseLine :: "string \<Rightarrow> string" where
  "releaseLine tag' = ''**Release Version:** `'' @ tag' @ ''`''"

definition compareLine :: string where
  "compareLine = ''**Compare Changes:** https://github.com/Expensify/App/compare/production...staging''"

definition PRHeading :: string where
  "PRHeading = ''**This release contains changes from the following pull requests:**''"

definition internalQAHeading :: string where
  "internalQAHeading = ''**Internal QA:**''"

definition deployBlockersHeading :: string where
  "deployBlockersHeading = ''**Deploy Blockers:**''"

definition verificationsHeading :: string where
  "verificationsHeading = ''**Deployer verifications:**''"

definition timingLine :: "bool \<Rightarrow> string" where
  "timingLine checked = ''- ['' @ box checked
     @ ''] I checked the [App Timing Dashboard](https://graphs.expensify.com/grafana/d/yj2EobAGz/app-timing?orgId=1) and verified this release does not cause a noticeable performance regression.''"

definition firebaseLine :: "bool \<Rightarrow> string" where
  "firebaseLine checked = ''- ['' @ box checked
     @ ''] I checked [Firebase Crashlytics](https://console.firebase.google.com/u/0/project/expensify-chat/crashlytics/app/android:com.expensify.chat/issues?state=open&time=last-seven-days&tag=all) and verified that this release does not introduce any new crashes. More detailed instructions on this verification can be found [here](https://stackoverflowteams.com/c/expensify/questions/15095/15096).''"

definition statusLine :: "bool \<Rightarrow> string" where
  "statusLine checked = ''- ['' @ box checked
     @ ''] I checked [GitHub Status](https://www.githubstatus.com/) and verified there is no reported incident with Actions.''"

definition ccLine :: string where
  "ccLine = ''cc @Expensify/applauseleads''"

definition PRLine :: "(string \<Rightarrow> bool) \<Rightarrow> string \<Rightarrow> string" where
  "PRLine v URL = checkbox (v URL) @ '' '' @ URL"

definition internalQALine :: "(string \<Rightarrow> bool) \<Rightarrow> string \<times> string \<Rightarrow> string" where
  "internalQALine v e = checkbox (v (fst e)) @ '' '' @ fst e @ '' - @'' @ snd e"

definition headerLines :: "string \<Rightarrow> string list" where
  "headerLines tag' = [releaseLine tag', compareLine]"

definition PRLines :: "string list \<Rightarrow> (string \<Rightarrow> bool) \<Rightarrow> string list" where
  "PRLines main v = (if main = [] then [] else [[], PRHeading] @ map (PRLine v) main @ [[], []])"

definition internalQALines :: "(string \<times> string) list \<Rightarrow> (string \<Rightarrow> bool) \<Rightarrow> string list" where
  "internalQALines es v =
     (if es = [] then [] else internalQAHeading # map (internalQALine v) es @ [[], []])"

definition deployBlockerLines :: "string list \<Rightarrow> (string \<Rightarrow> bool) \<Rightarrow> string list" where
  "deployBlockerLines bs v =
     (if bs = [] then [] else deployBlockersHeading # map (PRLine v) bs @ [[], []])"

definition verificationLines :: "bool \<Rightarrow> bool \<Rightarrow> bool \<Rightarrow> string list" where
  "verificationLines t f g =
     [verificationsHeading, timingLine t, firebaseLine f, statusLine g, [], ccLine]"

lemma linesText_map: "linesText (map f xs) = concat (map (\<lambda>x. f x @ CRLF) xs)"
  by (simp add: linesText_def comp_def)

lemma headerText_lines: "headerText tag' = linesText (headerLines tag')"
  by (simp add: headerText_def headerLines_def releaseLine_def compareLine_def CRLF_def)

lemma PRListText_lines: "PRListText main vs = linesText (PRLines main (contains vs))"
  by (simp add: PRListText_def PRLines_def PRHeading_def CRLF_def linesText_map PRLine_def)

lemma internalQAText_lines:
  "internalQAText internalQA rs = linesText (internalQALines (entries internalQA) (contains rs))"
proof -
  have "entries internalQA = [] \<longleftrightarrow> internalQA = []"
    using set_entries[of internalQA] by (metis set_empty)
  then show ?thesis
    by (simp add: internalQAText_def internalQALines_def internalQAHeading_def CRLF_def
        linesText_map internalQALine_def case_prod_unfold)
qed

lemma verificationsText_lines: "verificationsText t f g = linesText (verificationLines t f g)"
  by (simp add: verificationsText_def verificationLines_def verificationsHeading_def
      timingLine_def firebaseLine_def statusLine_def ccLine_def CRLF_def)

subsection \<open>Lines that cannot hold a heading\<close>

definition spaced :: "char \<Rightarrow> string \<Rightarrow> bool" where
  "spaced c L = (\<exists>p q. L = p @ CHR '' '' # c # q)"

lemma spaced_lacks: "spaced c L \<Longrightarrow> noPair CHR '' '' c l \<Longrightarrow> \<not> sublist L l"
  by (auto simp: spaced_def noPair_sublist)

lemma spaced_literals:
  "spaced CHR ''r'' ''pull requests:**''"
  "spaced CHR ''Q'' ''Internal QA:**''"
  "spaced CHR ''B'' ''Deploy Blockers:**''"
  "spaced CHR ''c'' ''I checked the [App Timing Dashboard]''"
  "spaced CHR ''c'' ''I checked [Firebase Crashlytics]''"
  "spaced CHR ''c'' ''I checked [GitHub Status]''"
  unfolding spaced_def
  by (rule exI[of _ "''pull''"], rule exI[of _ "''equests:**''"], simp,
      rule exI[of _ "''Internal''"], rule exI[of _ "''A:**''"], simp,
      rule exI[of _ "''Deploy''"], rule exI[of _ "''lockers:**''"], simp,
      rule exI[of _ "''I''"], rule exI[of _ "''hecked the [App Timing Dashboard]''"], simp,
      rule exI[of _ "''I''"], rule exI[of _ "''hecked [Firebase Crashlytics]''"], simp,
      rule exI[of _ "''I''"], rule exI[of _ "''hecked [GitHub Status]''"], simp)

lemma validPR_hd: "validPR URL \<Longrightarrow> URL \<noteq> [] \<and> hd URL = CHR ''h''"
proof -
  assume "validPR URL"
  then have "rmatch PULL_REQUEST_REGEX (URL, []) \<noteq> []" by (simp add: validPR_def beginsWith_def)
  then obtain x c where "(x, c) \<in> set (rmatch PULL_REQUEST_REGEX (URL, []))"
    by (cases "rmatch PULL_REQUEST_REGEX (URL, [])") auto
  from rmatch_begin[OF this] show ?thesis
    by (simp add: PULL_REQUEST_REGEX_def PULL_REQUEST_SOURCE_def GITHUB_BASE_URL_REGEX_def)
qed

lemma validIssueOrPR_hd: "validIssueOrPR URL \<Longrightarrow> URL \<noteq> [] \<and> hd URL = CHR ''h''"
proof -
  assume "validIssueOrPR URL"
  then have "rmatch ISSUE_OR_PULL_REQUEST_REGEX (URL, []) \<noteq> []"
    by (simp add: validIssueOrPR_def beginsWith_def)
  then obtain x c where "(x, c) \<in> set (rmatch ISSUE_OR_PULL_REQUEST_REGEX (URL, []))"
    by (cases "rmatch ISSUE_OR_PULL_REQUEST_REGEX (URL, [])") auto
  from rmatch_begin[OF this] show ?thesis
    by (simp add: ISSUE_OR_PULL_REQUEST_REGEX_def ISSUE_OR_PULL_REQUEST_SOURCE_def
        GITHUB_BASE_URL_REGEX_def)
qed

lemma noSpace_no_space: "noSpace s \<Longrightarrow> CHR '' '' \<notin> set s"
  by (induction s) (auto simp: whitespace_def)

lemma checkbox_noPair:
  "CHR ''['' \<noteq> c \<Longrightarrow> CHR '']'' \<noteq> c \<Longrightarrow> noPair CHR '' '' c (checkbox b)"
  by (cases b) (simp_all add: checkbox_def)

lemma checkbox_last: "last (checkbox b) = CHR '']''"
  by (simp add: checkbox_def)

lemma PRLine_noPair:
  assumes "c \<notin> set ''[]h''" "noSpace URL" "URL \<noteq> [] \<and> hd URL = CHR ''h''"
  shows "noPair CHR '' '' c (PRLine v URL)"
proof -
  from assms(1) have c: "CHR ''['' \<noteq> c" "CHR '']'' \<noteq> c" "CHR ''h'' \<noteq> c" by auto
  from assms(3) obtain u where u: "URL = CHR ''h'' # u" by (cases URL) auto
  have "noPair CHR '' '' c URL" by (rule noPair_absent[OF noSpace_no_space[OF assms(2)]])
  with c u checkbox_noPair[OF c(1,2), of "v URL"] show ?thesis
    by (simp add: PRLine_def noPair_append checkbox_last)
qed

lemma internalQALine_noPair:
  assumes "c \<notin> set ''[]h-@''" "noSpace URL" "URL \<noteq> [] \<and> hd URL = CHR ''h''" "noSpace merger"
  shows "noPair CHR '' '' c (internalQALine v (URL, merger))"
proof -
  from assms(1) have c: "CHR ''['' \<noteq> c" "CHR '']'' \<noteq> c" "CHR ''h'' \<noteq> c"
    "CHR ''-'' \<noteq> c" "CHR ''@'' \<noteq> c" by auto
  from assms(3) obtain u where u: "URL = CHR ''h'' # u" by (cases URL) auto
  have 1: "noPair CHR '' '' c (CHR ''h'' # u)"
    using noPair_absent[OF noSpace_no_space[OF assms(2)], of c] u by simp
  have 2: "noPair CHR '' '' c (CHR ''@'' # merger)"
    using noSpace_no_space[OF assms(4)] by (intro noPair_absent) simp
  have 3: "noPair CHR '' '' c ('' - '' @ CHR ''@'' # merger)"
    using 2 c by simp
  have lst: "u \<noteq> [] \<longrightarrow> last u \<noteq> CHR '' ''"
    using noSpace_no_space[OF assms(2)] u by (metis last_in_set list.set_intros(2))
  have 4: "noPair CHR '' '' c ((CHR ''h'' # u) @ '' - '' @ CHR ''@'' # merger)"
    using 1 3 lst by (simp only: noPair_append) simp
  have 5: "noPair CHR '' '' c (CHR '' '' # (CHR ''h'' # u) @ '' - '' @ CHR ''@'' # merger)"
    using 4 c by simp
  have "noPair CHR '' '' c (checkbox (v URL) @ CHR '' '' # (CHR ''h'' # u) @ '' - '' @ CHR ''@'' # merger)"
    using 5 checkbox_noPair[OF c(1,2), of "v URL"] by (simp only: noPair_append checkbox_last) simp
  with u show ?thesis by (simp add: internalQALine_def)
qed

lemma releaseLine_noPair:
  assumes "c \<notin> set ''V`''" "noSpace tag'"
  shows "noPair CHR '' '' c (releaseLine tag')"
proof -
  from assms(1) have c: "CHR ''V'' \<noteq> c" "CHR 0x60 \<noteq> c" by auto
  have 1: "noPair CHR '' '' c (tag' @ ''`'')"
    using noSpace_no_space[OF assms(2)] by (intro noPair_absent) simp
  have "noPair CHR '' '' c (''**Release Version:** '' @ CHR 0x60 # tag' @ ''`'')"
    using 1 c by (simp add: noPair_Cons)
  then show ?thesis by (simp add: releaseLine_def)
qed

lemma lacks_PRLines:
  assumes "spaced c L" "c \<notin> set ''[]h''" "\<forall>URL \<in> set us. validPR URL"
  shows "lacks L (map (PRLine v) us)"
  unfolding lacks_def
proof
  fix l assume "l \<in> set (map (PRLine v) us)"
  then obtain URL where u: "URL \<in> set us" "l = PRLine v URL" by auto
  with assms(3) have "validPR URL" by simp
  from PRLine_noPair[OF assms(2) _ validPR_hd[OF this], of v] this u(2)
  show "\<not> sublist L l" by (simp add: spaced_lacks[OF assms(1)] validPR_def)
qed

lemma lacks_blockerLines:
  assumes "spaced c L" "c \<notin> set ''[]h''" "\<forall>URL \<in> set us. validIssueOrPR URL"
  shows "lacks L (map (PRLine v) us)"
  unfolding lacks_def
proof
  fix l assume "l \<in> set (map (PRLine v) us)"
  then obtain URL where u: "URL \<in> set us" "l = PRLine v URL" by auto
  with assms(3) have "validIssueOrPR URL" by simp
  from PRLine_noPair[OF assms(2) _ validIssueOrPR_hd[OF this], of v] this u(2)
  show "\<not> sublist L l" by (simp add: spaced_lacks[OF assms(1)] validIssueOrPR_def)
qed

lemma lacks_internalQALines:
  assumes "spaced c L" "c \<notin> set ''[]h-@''"
    "\<forall>e \<in> set es. validPR (fst e) \<and> validLogin (snd e)"
  shows "lacks L (map (internalQALine v) es)"
  unfolding lacks_def
proof
  fix l assume "l \<in> set (map (internalQALine v) es)"
  then obtain e where u: "e \<in> set es" "l = internalQALine v e" by auto
  with assms(3) have va: "validPR (fst e)" "validLogin (snd e)" by simp_all
  from internalQALine_noPair[OF assms(2) _ validPR_hd[OF va(1)], of "snd e" v] va u(2)
  show "\<not> sublist L l" by (simp add: spaced_lacks[OF assms(1)] validPR_def validLogin_def)
qed

lemma lacks_releaseLine:
  assumes "spaced c L" "c \<notin> set ''V`''" "noSpace tag'"
  shows "\<not> sublist L (releaseLine tag')"
  using releaseLine_noPair[OF assms(2,3)] by (rule spaced_lacks[OF assms(1)])

lemma PR_literal_short:
  "\<not> sublist ''pull requests:**'' compareLine"
  "\<not> sublist ''pull requests:**'' internalQAHeading"
  "\<not> sublist ''pull requests:**'' deployBlockersHeading"
  "\<not> sublist ''pull requests:**'' verificationsHeading"
  "\<not> sublist ''pull requests:**'' ccLine"
  by (simp_all add: compareLine_def PRHeading_def internalQAHeading_def deployBlockersHeading_def
      verificationsHeading_def ccLine_def sublist_Cons_right)

lemma PR_literal_long:
  "\<not> sublist ''pull requests:**'' (timingLine b)"
  "\<not> sublist ''pull requests:**'' (firebaseLine b)"
  "\<not> sublist ''pull requests:**'' (statusLine b)"
  by (cases b; simp add: timingLine_def firebaseLine_def statusLine_def box_def sublist_Cons_right)+

lemma PR_literal_own: "occs ''pull requests:**'' PRHeading = [51]"
  by (simp add: PRHeading_def)

lemma internalQA_literal_short:
  "\<not> sublist ''Internal QA:**'' compareLine"
  "\<not> sublist ''Internal QA:**'' PRHeading"
  "\<not> sublist ''Internal QA:**'' deployBlockersHeading"
  "\<not> sublist ''Internal QA:**'' verificationsHeading"
  "\<not> sublist ''Internal QA:**'' ccLine"
  by (simp_all add: compareLine_def PRHeading_def internalQAHeading_def deployBlockersHeading_def
      verificationsHeading_def ccLine_def sublist_Cons_right)

lemma internalQA_literal_long:
  "\<not> sublist ''Internal QA:**'' (timingLine b)"
  "\<not> sublist ''Internal QA:**'' (firebaseLine b)"
  "\<not> sublist ''Internal QA:**'' (statusLine b)"
  by (cases b; simp add: timingLine_def firebaseLine_def statusLine_def box_def sublist_Cons_right)+

lemma internalQA_literal_own: "occs ''Internal QA:**'' internalQAHeading = [2]"
  by (simp add: internalQAHeading_def)

lemma deployBlockers_literal_short:
  "\<not> sublist ''Deploy Blockers:**'' compareLine"
  "\<not> sublist ''Deploy Blockers:**'' PRHeading"
  "\<not> sublist ''Deploy Blockers:**'' internalQAHeading"
  "\<not> sublist ''Deploy Blockers:**'' verificationsHeading"
  "\<not> sublist ''Deploy Blockers:**'' ccLine"
  by (simp_all add: compareLine_def PRHeading_def internalQAHeading_def deployBlockersHeading_def
      verificationsHeading_def ccLine_def sublist_Cons_right)

lemma deployBlockers_literal_long:
  "\<not> sublist ''Deploy Blockers:**'' (timingLine b)"
  "\<not> sublist ''Deploy Blockers:**'' (firebaseLine b)"
  "\<not> sublist ''Deploy Blockers:**'' (statusLine b)"
  by (cases b; simp add: timingLine_def firebaseLine_def statusLine_def box_def sublist_Cons_right)+

lemma deployBlockers_literal_own: "occs ''Deploy Blockers:**'' deployBlockersHeading = [2]"
  by (simp add: deployBlockersHeading_def)

lemma timing_literal_short:
  "\<not> sublist ''I checked the [App Timing Dashboard]'' compareLine"
  "\<not> sublist ''I checked the [App Timing Dashboard]'' PRHeading"
  "\<not> sublist ''I checked the [App Timing Dashboard]'' internalQAHeading"
  "\<not> sublist ''I checked the [App Timing Dashboard]'' deployBlockersHeading"
  "\<not> sublist ''I checked the [App Timing Dashboard]'' verificationsHeading"
  "\<not> sublist ''I checked the [App Timing Dashboard]'' ccLine"
  by (simp_all add: compareLine_def PRHeading_def internalQAHeading_def deployBlockersHeading_def
      verificationsHeading_def ccLine_def sublist_Cons_right)

lemma timing_literal_long:
  "\<not> sublist ''I checked the [App Timing Dashboard]'' (firebaseLine b)"
  "\<not> sublist ''I checked the [App Timing Dashboard]'' (statusLine b)"
  by (cases b; simp add: timingLine_def firebaseLine_def statusLine_def box_def sublist_Cons_right)+

lemma timing_literal_own: "occs ''I checked the [App Timing Dashboard]'' (timingLine b) = [6]"
  by (cases b; simp add: timingLine_def box_def)

lemma firebase_literal_short:
  "\<not> sublist ''I checked [Firebase Crashlytics]'' compareLine"
  "\<not> sublist ''I checked [Firebase Crashlytics]'' PRHeading"
  "\<not> sublist ''I checked [Firebase Crashlytics]'' internalQAHeading"
  "\<not> sublist ''I checked [Firebase Crashlytics]'' deployBlockersHeading"
  "\<not> sublist ''I checked [Firebase Crashlytics]'' verificationsHeading"
  "\<not> sublist ''I checked [Firebase Crashlytics]'' ccLine"
  by (simp_all add: compareLine_def PRHeading_def internalQAHeading_def deployBlockersHeading_def
      verificationsHeading_def ccLine_def sublist_Cons_right)

lemma firebase_literal_long:
  "\<not> sublist ''I checked [Firebase Crashlytics]'' (timingLine b)"
  "\<not> sublist ''I checked [Firebase Crashlytics]'' (statusLine b)"
  by (cases b; simp add: timingLine_def firebaseLine_def statusLine_def box_def sublist_Cons_right)+

lemma firebase_literal_own: "occs ''I checked [Firebase Crashlytics]'' (firebaseLine b) = [6]"
  by (cases b; simp add: firebaseLine_def box_def)

lemma status_literal_short:
  "\<not> sublist ''I checked [GitHub Status]'' compareLine"
  "\<not> sublist ''I checked [GitHub Status]'' PRHeading"
  "\<not> sublist ''I checked [GitHub Status]'' internalQAHeading"
  "\<not> sublist ''I checked [GitHub Status]'' deployBlockersHeading"
  "\<not> sublist ''I checked [GitHub Status]'' verificationsHeading"
  "\<not> sublist ''I checked [GitHub Status]'' ccLine"
  by (simp_all add: compareLine_def PRHeading_def internalQAHeading_def deployBlockersHeading_def
      verificationsHeading_def ccLine_def sublist_Cons_right)

lemma status_literal_long:
  "\<not> sublist ''I checked [GitHub Status]'' (timingLine b)"
  "\<not> sublist ''I checked [GitHub Status]'' (firebaseLine b)"
  by (cases b; simp add: timingLine_def firebaseLine_def statusLine_def box_def sublist_Cons_right)+

lemma status_literal_own: "occs ''I checked [GitHub Status]'' (statusLine b) = [6]"
  by (cases b; simp add: statusLine_def box_def)

subsection \<open>A section at its heading\<close>

lemma heading_then:
  assumes "rmatch Q (s, []) = st # sts"
  shows "\<exists>sts'. rmatch (Seq (str L) (Seq (Opt (Chr CR)) (Seq (Chr LF) Q))) (L @ CR # LF # s, [])
                 = st # sts'"
  using assms by (simp add: rmatch_str rmatch.simps(2,5,7))

lemma lines_group:
  assumes single: "\<And>l rest cs. l \<in> set ls \<Longrightarrow> rmatch Lr (l @ CR # LF # rest, cs) = [(rest, cs)]"
    and stop: "\<And>cs. rmatch Lr (X, cs) = []" and ne: "ls \<noteq> []"
  shows "\<exists>sts. rmatch (Grp g (Plus Lr)) (linesText ls @ X, cs) = (X, (g, linesText ls) # cs) # sts"
  using Plus_lines_first[of ls Lr X g cs, OF single stop ne] by (simp add: linesText_def)

lemma dash_line_stop:
  "rmatch (seqs [Chr CHR ''-'', Star Dot, Opt (Chr CR), Chr LF]) (CR # rest, cs) = []"
  by (simp add: rmatch.simps(2,5) CR_def)

lemma box_line_stop:
  "rmatch (seqs [str ''- ['', Cls '' x'', Chr CHR '']'', Star Dot, Opt (Chr CR), Chr LF])
          (CR # rest, cs) = []"
  by (simp add: rmatch.simps(2,5) CR_def)

lemma PRLine_dash: "\<exists>u. PRLine v URL = CHR ''-'' # u \<and> (lineFree URL \<longrightarrow> lineFree u)"
  by (cases "v URL") (simp_all add: PRLine_def checkbox_def lineTerminator_def CR_def LF_def)

lemma PRLine_single:
  assumes "lineFree URL"
  shows "rmatch (seqs [Chr CHR ''-'', Star Dot, Opt (Chr CR), Chr LF])
           (PRLine v URL @ CR # LF # rest, cs) = [(rest, cs)]"
proof -
  from PRLine_dash[of v URL] assms obtain u where u: "PRLine v URL = CHR ''-'' # u" "lineFree u"
    by blast
  from dash_line_single[OF u(2), of rest cs] u(1) show ?thesis by simp
qed

lemma internalQALine_single:
  assumes "lineFree (fst e)" "lineFree (snd e)"
  shows "rmatch (seqs [str ''- ['', Cls '' x'', Chr CHR '']'', Star Dot, Opt (Chr CR), Chr LF])
           (internalQALine v e @ CR # LF # rest, cs) = [(rest, cs)]"
proof -
  let ?u = "'' '' @ fst e @ '' - @'' @ snd e"
  let ?c = "if v (fst e) then CHR ''x'' else CHR '' ''"
  from assms have l: "lineFree ?u" by (simp add: lineTerminator_def CR_def LF_def)
  have "internalQALine v e = ''- ['' @ ?c # CHR '']'' # ?u"
    by (simp add: internalQALine_def checkbox_def)
  with box_line_single[OF l, of ?c rest cs] show ?thesis by simp
qed

lemma section_groups [simp]:
  "ngroups PR_LIST_SECTION = 1" "ngroups DEPLOY_BLOCKER_SECTION = 1" "ngroups INTERNAL_QA_SECTION = 1"
  by (simp_all add: PR_LIST_SECTION_def DEPLOY_BLOCKER_SECTION_def INTERNAL_QA_SECTION_def Plus_def)

lemma match_array_found:
  assumes "search R [] s = Some (pre, m, [(1, t)], rest)" "ngroups R = 1"
  shows "match_array R s = Some [Some m, Some t]"
  using assms by (simp add: match_array_def)

subsection \<open>The first place of a heading\<close>



subsection \<open>The internal QA section of a checklist\<close>


lemma mention_line_single:
  assumes "lineFree URL" "lineFree mention"
  shows "rmatch (seqs [str ''- ['', Cls '' x'', Chr CHR '']'', Star Dot, Opt (Chr CR), Chr LF])
           ((checkbox b @ '' '' @ URL @ '' - @'' @ mention) @ CR # LF # rest, cs) = [(rest, cs)]"
proof -
  let ?u = "'' '' @ URL @ '' - @'' @ mention"
  let ?c = "if b then CHR ''x'' else CHR '' ''"
  from assms have l: "lineFree ?u" by (simp add: lineTerminator_def CR_def LF_def)
  have "checkbox b @ '' '' @ URL @ '' - @'' @ mention = ''- ['' @ ?c # CHR '']'' # ?u"
    by (simp add: checkbox_def)
  with box_line_single[OF l, of ?c rest cs] show ?thesis by simp
qed













section \<open>Reading the generated body\<close>

lemma section_found:
  assumes L: "lineFree L" "L \<noteq> []"
    and R: "R = Seq (str L) (Seq (Opt (Chr CR)) (Seq (Chr LF) Q))" and ng: "ngroups R = 1"
    and A: "lacks L A" and B: "lacks L (ls @ [] # B)"
    and h: "h = h0 @ L" "occs L h = [length h0]"
    and hit: "\<exists>rest sts. rmatch Q (linesText ls @ CR # LF # linesText B, [])
                         = (rest, [(1, linesText ls)]) # sts"
  shows "\<exists>m. match_array R (linesText (A @ h # ls @ [] # B)) = Some [m, Some (linesText ls)]"
proof -
  let ?X = "linesText A @ h0"
  let ?Y = "L @ CR # LF # linesText ls @ CR # LF # linesText B"
  have body: "linesText (A @ h # ls @ [] # B) = ?X @ ?Y" by (simp add: h(1))
  from hit obtain rest sts where
    "rmatch Q (linesText ls @ CR # LF # linesText B, []) = (rest, [(1, linesText ls)]) # sts"
    by blast
  from heading_then[OF this, of L] obtain sts' where
    hitR: "rmatch R (?Y, []) = (rest, [(1, linesText ls)]) # sts'" by (auto simp: R)
  have only: "k = length ?X + 0" if "prefix L (drop k (?X @ ?Y))" for k
  proof -
    from that have "prefix L (drop k (linesText (A @ h # (ls @ [] # B))))" by (simp add: h(1))
    from occurrence_unique[OF L A B occs_single[OF L(2) h(2)] this] show ?thesis by simp
  qed
  have "needs R L 0" unfolding R by (rule needs_str)
  from search_found[OF this only hitR] match_array_found[OF _ ng] show ?thesis
    by (simp only: body) blast
qed

lemma section_missing:
  assumes L: "lineFree L" "L \<noteq> []" and A: "lacks L ls"
  shows "\<not> sublist L (linesText ls)"
  using occurrence_nowhere[OF L A] by (simp add: sublist_drop)

lemma literals_lineFree:
  "lineFree ''pull requests:**''" "lineFree ''Internal QA:**''" "lineFree ''Deploy Blockers:**''"
  "lineFree ''I checked the [App Timing Dashboard]''" "lineFree ''I checked [Firebase Crashlytics]''"
  "lineFree ''I checked [GitHub Status]''"
  by (simp_all add: lineTerminator_def CR_def LF_def)

lemma valid_lineFree:
  "validPR URL \<Longrightarrow> lineFree URL" "validIssueOrPR URL \<Longrightarrow> lineFree URL"
  "validLogin merger \<Longrightarrow> lineFree merger"
  by (simp_all add: validPR_def validIssueOrPR_def validLogin_def noSpace_lineFree)

lemma PR_section_found:
  assumes A: "lacks ''pull requests:**'' A" and B: "lacks ''pull requests:**'' B"
    and us: "us \<noteq> []" "\<forall>URL \<in> set us. validPR URL"
  shows "\<exists>m. match_array PR_LIST_SECTION (linesText (A @ PRHeading # map (PRLine v) us @ [] # [] # B))
             = Some [m, Some (linesText (map (PRLine v) us))]"
proof -
  let ?L = "''pull requests:**''"
  let ?Lr = "seqs [Chr CHR ''-'', Star Dot, Opt (Chr CR), Chr LF]"
  let ?T = "seqs [Opt (Chr CR), Chr LF, Opt (Chr CR), Opt (Chr LF)]"
  let ?ls = "map (PRLine v) us"
  have single: "rmatch ?Lr (l @ CR # LF # rest, cs) = [(rest, cs)]" if "l \<in> set ?ls" for l rest cs
    using that us(2) by (auto simp del: seqs_Cons intro!: PRLine_single valid_lineFree(1))
  from lines_group[of ?ls ?Lr "CR # LF # linesText ([] # B)" 1 "[]", OF single dash_line_stop] us(1)
  obtain sts where g: "rmatch (Grp 1 (Plus ?Lr)) (linesText ?ls @ CR # LF # linesText ([] # B), [])
      = (CR # LF # linesText ([] # B), [(1, linesText ?ls)]) # sts"
    by (auto simp del: seqs_Cons linesText_simps)
  have t: "\<exists>ys. rmatch ?T (CR # LF # linesText ([] # B), [(1, linesText ?ls)])
           = (linesText B, [(1, linesText ?ls)]) # ys"
    by (simp add: rmatch.simps(2,5,7))
  then obtain ys where "rmatch ?T (CR # LF # linesText ([] # B), [(1, linesText ?ls)])
           = (linesText B, [(1, linesText ?ls)]) # ys" ..
  from rmatch_Seq_hit[OF g this]
  have hit: "\<exists>rest sts. rmatch (Seq (Grp 1 (Plus ?Lr)) ?T) (linesText ?ls @ CR # LF # linesText ([] # B), [])
                         = (rest, [(1, linesText ?ls)]) # sts" by blast
  have lsB: "lacks ?L (?ls @ [] # [] # B)"
    using B lacks_PRLines[OF spaced_literals(1) _ us(2), of v] by simp
  have h: "PRHeading = ''**This release contains changes from the following '' @ ?L"
    by (simp add: PRHeading_def)
  have own: "occs ?L PRHeading = [length ''**This release contains changes from the following '']"
    by (simp add: PR_literal_own)
  have R: "PR_LIST_SECTION = Seq (str ?L) (Seq (Opt (Chr CR)) (Seq (Chr LF) (Seq (Grp 1 (Plus ?Lr)) ?T)))"
    by (simp add: PR_LIST_SECTION_def)
  from section_found[OF literals_lineFree(1) _ R section_groups(1) A lsB h own hit]
  show ?thesis by simp
qed

lemma internalQA_section_found:
  assumes A: "lacks ''Internal QA:**'' A" and B: "lacks ''Internal QA:**'' B"
    and es: "es \<noteq> []" "\<forall>e \<in> set es. validPR (fst e) \<and> validLogin (snd e)"
  shows "\<exists>m. match_array INTERNAL_QA_SECTION
               (linesText (A @ internalQAHeading # map (internalQALine v) es @ [] # B))
             = Some [m, Some (linesText (map (internalQALine v) es))]"
proof -
  let ?L = "''Internal QA:**''"
  let ?Lr = "seqs [str ''- ['', Cls '' x'', Chr CHR '']'', Star Dot, Opt (Chr CR), Chr LF]"
  let ?ls = "map (internalQALine v) es"
  have single: "rmatch ?Lr (l @ CR # LF # rest, cs) = [(rest, cs)]" if "l \<in> set ?ls" for l rest cs
  proof -
    from that obtain e where e: "e \<in> set es" "l = internalQALine v e" by auto
    with es(2) have "lineFree (fst e)" "lineFree (snd e)" by (auto intro: valid_lineFree)
    from internalQALine_single[OF this, of v rest cs] e(2) show ?thesis by simp
  qed
  from lines_group[of ?ls ?Lr "CR # LF # linesText B" 1 "[]", OF single box_line_stop] es(1)
  have hit: "\<exists>rest sts. rmatch (Seq (Grp 1 (Plus ?Lr)) Eps) (linesText ?ls @ CR # LF # linesText B, [])
                         = (rest, [(1, linesText ?ls)]) # sts"
    by (auto simp add: rmatch_Seq_Eps simp del: seqs_Cons str_Cons linesText_simps)
  have lsB: "lacks ?L (?ls @ [] # B)"
    using B lacks_internalQALines[OF spaced_literals(2) _ es(2), of v] by simp
  have h: "internalQAHeading = ''**'' @ ?L" by (simp add: internalQAHeading_def)
  have own: "occs ?L internalQAHeading = [length ''**'']" by (simp add: internalQA_literal_own)
  have R: "INTERNAL_QA_SECTION
           = Seq (str ?L) (Seq (Opt (Chr CR)) (Seq (Chr LF) (Seq (Grp 1 (Plus ?Lr)) Eps)))"
    by (simp add: INTERNAL_QA_SECTION_def)
  from section_found[OF literals_lineFree(2) _ R section_groups(3) A lsB h own hit]
  show ?thesis by simp
qed

lemma deployBlockers_section_found:
  assumes A: "lacks ''Deploy Blockers:**'' A" and B: "lacks ''Deploy Blockers:**'' B"
    and us: "us \<noteq> []" "\<forall>URL \<in> set us. validIssueOrPR URL"
  shows "\<exists>m. match_array DEPLOY_BLOCKER_SECTION
               (linesText (A @ deployBlockersHeading # map (PRLine v) us @ [] # B))
             = Some [m, Some (linesText (map (PRLine v) us))]"
proof -
  let ?L = "''Deploy Blockers:**''"
  let ?Lr = "seqs [Chr CHR ''-'', Star Dot, Opt (Chr CR), Chr LF]"
  let ?ls = "map (PRLine v) us"
  have single: "rmatch ?Lr (l @ CR # LF # rest, cs) = [(rest, cs)]" if "l \<in> set ?ls" for l rest cs
    using that us(2) by (auto simp del: seqs_Cons intro!: PRLine_single valid_lineFree(2))
  from lines_group[of ?ls ?Lr "CR # LF # linesText B" 1 "[]", OF single dash_line_stop] us(1)
  have hit: "\<exists>rest sts. rmatch (Seq (Grp 1 (Plus ?Lr)) Eps) (linesText ?ls @ CR # LF # linesText B, [])
                         = (rest, [(1, linesText ?ls)]) # sts"
    by (auto simp add: rmatch_Seq_Eps simp del: seqs_Cons linesText_simps)
  have lsB: "lacks ?L (?ls @ [] # B)"
    using B lacks_blockerLines[OF spaced_literals(3) _ us(2), of v] by simp
  have h: "deployBlockersHeading = ''**'' @ ?L" by (simp add: deployBlockersHeading_def)
  have own: "occs ?L deployBlockersHeading = [length ''**'']"
    by (simp add: deployBlockers_literal_own)
  have R: "DEPLOY_BLOCKER_SECTION
           = Seq (str ?L) (Seq (Opt (Chr CR)) (Seq (Chr LF) (Seq (Grp 1 (Plus ?Lr)) Eps)))"
    by (simp add: DEPLOY_BLOCKER_SECTION_def)
  from section_found[OF literals_lineFree(3) _ R section_groups(2) A lsB h own hit]
  show ?thesis by simp
qed

subsection \<open>The entries read from a section\<close>

lemma criterion_validPR:
  "validPR URL \<Longrightarrow> criterion getPullRequestNumberFromURL URL = parseInt (numberText PULL_REQUEST_REGEX URL)"
  by (simp add: criterion_def validPR_def getPullRequestNumberFromURL_begins)

lemma criterion_validIssueOrPR:
  "validIssueOrPR URL \<Longrightarrow>
   criterion getIssueOrPullRequestNumberFromURL URL
   = parseInt (numberText ISSUE_OR_PULL_REQUEST_REGEX URL)"
  by (simp add: criterion_def validIssueOrPR_def getIssueOrPullRequestNumberFromURL_begins)

lemma PRList_read:
  assumes m: "match_array PR_LIST_SECTION issue_body = Some [m, Some (linesText (map (PRLine v) us))]"
    and us: "\<forall>URL \<in> set us. validPR URL"
  shows "getStagingDeployCashPRList issue_body
         = sortBy number (map (\<lambda>URL. \<lparr>url = URL, number = criterion getPullRequestNumberFromURL URL,
                                        isVerified = v URL\<rparr>) us)"
proof -
  have l: "linesText (map (PRLine v) us) = concat (map (\<lambda>URL. checkbox (v URL) @ '' '' @ URL @ CRLF) us)"
    by (simp add: linesText_map PRLine_def)
  have r: "map (\<lambda>(m, cs). \<lparr>url = capture cs 2, number = parseInt (capture cs 3),
                              isVerified = (capture cs 1 = ''x'')\<rparr>)
             (map (\<lambda>URL. (checkbox (v URL) @ '' '' @ URL,
                        [(2, URL), (3, numberText PULL_REQUEST_REGEX URL), (1, box (v URL))])) us)
           = map (\<lambda>URL. \<lparr>url = URL, number = criterion getPullRequestNumberFromURL URL,
                                        isVerified = v URL\<rparr>) us"
    using us by (simp add: criterion_validPR)
  have g: "getStagingDeployCashPRList issue_body
           = sortBy number
               (map (\<lambda>(m, cs). \<lparr>url = capture cs 2, number = parseInt (capture cs 3),
                              isVerified = (capture cs 1 = ''x'')\<rparr>)
                    (match_all PR_LINE (linesText (map (PRLine v) us))))"
    unfolding getStagingDeployCashPRList_def m by simp
  show ?thesis unfolding g l PR_lines[OF us] r ..
qed

lemma deployBlockers_read:
  assumes m: "match_array DEPLOY_BLOCKER_SECTION issue_body
               = Some [m, Some (linesText (map (PRLine v) us))]"
    and us: "\<forall>URL \<in> set us. validIssueOrPR URL"
  shows "getStagingDeployCashDeployBlockers issue_body
         = sortBy number (map (\<lambda>URL. \<lparr>url = URL,
                                        number = criterion getIssueOrPullRequestNumberFromURL URL,
                                        isResolved = v URL\<rparr>) us)"
proof -
  have l: "linesText (map (PRLine v) us) = concat (map (\<lambda>URL. checkbox (v URL) @ '' '' @ URL @ CRLF) us)"
    by (simp add: linesText_map PRLine_def)
  have r: "map (\<lambda>(m, cs). \<lparr>url = capture cs 2, number = parseInt (capture cs 3),
                              isResolved = (capture cs 1 = ''x'')\<rparr>)
             (map (\<lambda>URL. (checkbox (v URL) @ '' '' @ URL,
                        [(2, URL), (3, numberText ISSUE_OR_PULL_REQUEST_REGEX URL),
                         (1, box (v URL))])) us)
           = map (\<lambda>URL. \<lparr>url = URL, number = criterion getIssueOrPullRequestNumberFromURL URL,
                                        isResolved = v URL\<rparr>) us"
    using us by (simp add: criterion_validIssueOrPR)
  have g: "getStagingDeployCashDeployBlockers issue_body
           = sortBy number
               (map (\<lambda>(m, cs). \<lparr>url = capture cs 2, number = parseInt (capture cs 3),
                              isResolved = (capture cs 1 = ''x'')\<rparr>)
                    (match_all DEPLOY_BLOCKER_LINE (linesText (map (PRLine v) us))))"
    unfolding getStagingDeployCashDeployBlockers_def m by simp
  show ?thesis unfolding g l blocker_lines[OF us] r ..
qed

lemma internalQA_read:
  assumes m: "match_array INTERNAL_QA_SECTION issue_body
               = Some [m, Some (linesText (map (internalQALine v) es))]"
    and es: "\<forall>(URL, merger) \<in> set es. validPR URL \<and> CHR ''-'' \<notin> set URL \<and> validLogin merger"
  shows "getStagingDeployCashInternalQA issue_body
         = sortBy number (map (\<lambda>(URL, merger). \<lparr>url = URL,
                                        number = criterion getPullRequestNumberFromURL URL,
                                        isResolved = v URL\<rparr>) es)"
proof -
  have l: "linesText (map (internalQALine v) es)
        = concat (map (\<lambda>(URL, merger). checkbox (v URL) @ '' '' @ URL @ '' - '' @ (''@'' @ merger) @ CRLF) es)"
    by (simp add: linesText_map internalQALine_def case_prod_unfold)
  from es have va: "\<forall>(URL, merger) \<in> set es. validPR URL \<and> validLogin merger" by auto
  have r: "map (\<lambda>(m, cs). \<lparr>url = trim (splitFirst CHR ''-'' (capture cs 2)),
                         number = parseInt (capture cs 3), isResolved = (capture cs 1 = ''x'')\<rparr>)
            (map (\<lambda>(URL, merger). (checkbox (v URL) @ '' '' @ URL @ '' - @'' @ merger,
                        [(2, URL @ '' - @'' @ merger), (3, numberText PULL_REQUEST_REGEX URL),
                         (1, box (v URL))])) es)
        = map (\<lambda>(URL, merger). \<lparr>url = URL, number = criterion getPullRequestNumberFromURL URL,
                                  isResolved = v URL\<rparr>) es"
  proof -
    have "(\<lambda>(m, cs). \<lparr>url = trim (splitFirst CHR ''-'' (capture cs 2)),
                         number = parseInt (capture cs 3), isResolved = (capture cs 1 = ''x'')\<rparr>)
            ((\<lambda>(URL, merger). (checkbox (v URL) @ '' '' @ URL @ '' - @'' @ merger,
                        [(2, URL @ '' - @'' @ merger), (3, numberText PULL_REQUEST_REGEX URL),
                         (1, box (v URL))])) e)
        = (\<lambda>(URL, merger). \<lparr>url = URL, number = criterion getPullRequestNumberFromURL URL,
                                  isResolved = v URL\<rparr>) e" if e: "e \<in> set es" for e
    proof -
      obtain URL merger where t: "e = (URL, merger)" by (cases e)
      with es e have u: "validPR URL" "CHR ''-'' \<notin> set URL" by auto
      then have "noSpace URL" by (simp add: validPR_def)
      from url_before_the_mention[OF this u(2), of merger] criterion_validPR[OF u(1)]
      show ?thesis by (simp add: t)
    qed
    then show ?thesis by simp
  qed
  have g: "getStagingDeployCashInternalQA issue_body
           = sortBy number
               (map (\<lambda>(m, cs). \<lparr>url = trim (splitFirst CHR ''-'' (capture cs 2)),
                         number = parseInt (capture cs 3), isResolved = (capture cs 1 = ''x'')\<rparr>)
                    (match_all INTERNAL_QA_LINE (linesText (map (internalQALine v) es))))"
    unfolding getStagingDeployCashInternalQA_def m by simp
  show ?thesis unfolding g l internalQA_lines[OF va] r ..
qed

subsection \<open>What a match consumes\<close>

lemma rmatch_consumes:
  "(s', cs') \<in> set (rmatch r (s, cs)) \<Longrightarrow> \<exists>p. s = p @ s' \<and> (\<forall>c \<in> set p. accepts r c)"
proof (induction r "(s, cs)" arbitrary: s cs s' cs' rule: rmatch.induct)
  case (5 a b s cs)
  then obtain t ct where m: "(t, ct) \<in> set (rmatch a (s, cs))" "(s', cs') \<in> set (rmatch b (t, ct))"
    by (auto simp: rmatch.simps(5))
  from "5.hyps"(1)[OF m(1)] obtain p where p: "s = p @ t" "\<forall>c \<in> set p. accepts a c" by blast
  from "5.hyps"(2)[OF m(1) m(2)] obtain q where "t = q @ s'" "\<forall>c \<in> set q. accepts b c" by blast
  with p show ?case by (intro exI[of _ "p @ q"]) auto
next
  case (8 a s cs)
  show ?case
  proof (cases "(s', cs') = (s, cs)")
    case True then show ?thesis by simp
  next
    case False
    with "8.prems" obtain t ct where m: "(t, ct) \<in> set (rmatch a (s, cs))"
      "length t < length s" "(s', cs') \<in> set (rmatch (Star a) (t, ct))"
      by (auto simp: rmatch.simps(8) split: if_splits)
    from "8.hyps"(1)[OF m(1)] obtain p where p: "s = p @ t" "\<forall>c \<in> set p. accepts a c" by blast
    have "length (fst (t, ct)) < length s" using m(2) by simp
    from "8.hyps"(2)[OF m(1) this m(3)] obtain q where "t = q @ s'"
      "\<forall>c \<in> set q. accepts (Star a) c" by blast
    with p show ?thesis by (intro exI[of _ "p @ q"]) auto
  qed
next
  case (2 c s cs) then show ?case by (cases s) (auto simp: rmatch.simps(2) split: if_splits)
next
  case (3 s cs) then show ?case by (cases s) (auto simp: rmatch.simps(3) split: if_splits)
next
  case (4 M s cs) then show ?case by (cases s) (auto simp: rmatch.simps(4) split: if_splits)
next
  case (6 a b s cs)
  from "6.prems" have "(s', cs') \<in> set (rmatch a (s, cs)) \<or> (s', cs') \<in> set (rmatch b (s, cs))"
    by (simp add: rmatch.simps(6))
  then show ?case
  proof
    assume "(s', cs') \<in> set (rmatch a (s, cs))"
    from "6.hyps"(1)[OF this] show ?thesis by auto
  next
    assume "(s', cs') \<in> set (rmatch b (s, cs))"
    from "6.hyps"(2)[OF this] show ?thesis by auto
  qed
next
  case (7 a s cs) then show ?case by (auto simp: rmatch.simps(7))
next
  case (9 i a s cs) then show ?case by (auto simp: rmatch.simps(9))
qed (simp add: rmatch.simps(1))


subsection \<open>The tag\<close>

text \<open>A version string: the preferred match of \<open>versionRegex\<close> at its first character is
  the whole string, as for \<open>1.2.3\<close> and \<open>1.2.3-4\<close>.\<close>

definition isVersion :: "string \<Rightarrow> bool" where
  "isVersion t = (case rmatch versionRegex (t, []) of [] \<Rightarrow> False | st # _ \<Rightarrow> fst st = [])"

lemma accepts_versionRegex:
  "accepts versionRegex c = (c \<in> set ''0123456789.-'')"
  by (auto simp: versionRegex_def Plus_def digits_def)

lemma isVersion_chars:
  assumes "isVersion t"
  shows "\<forall>c \<in> set t. c \<in> set ''0123456789.-''"
proof -
  from assms obtain cs sts where "rmatch versionRegex (t, []) = ([], cs) # sts"
    by (auto simp: isVersion_def split: list.splits)
  then have "([], cs) \<in> set (rmatch versionRegex (t, []))" by simp
  from rmatch_consumes[OF this] show ?thesis by (simp add: accepts_versionRegex)
qed

lemma isVersion_noSpace: "isVersion t \<Longrightarrow> noSpace t"
proof -
  assume "isVersion t"
  then have a: "\<forall>c \<in> set t. c \<in> set ''0123456789.-''" by (rule isVersion_chars)
  have "set ''0123456789.-'' \<inter> set whitespace = {}" by (simp add: whitespace_def)
  with a have "\<forall>c \<in> set t. c \<notin> set whitespace" by blast
  then show ?thesis by (simp add: noSpace_def list_all_iff)
qed

lemma isVersion_no_backtick: "isVersion t \<Longrightarrow> filter (\<lambda>c. c \<noteq> CHR 0x60) t = t"
proof -
  assume "isVersion t"
  then have a: "\<forall>c \<in> set t. c \<in> set ''0123456789.-''" by (rule isVersion_chars)
  have "CHR 0x60 \<notin> set ''0123456789.-''" by simp
  with a have "\<forall>c \<in> set t. c \<noteq> CHR 0x60" by blast
  then show ?thesis by (simp add: filter_id_conv)
qed

lemma search_skip_start:
  assumes "\<not> nullable r" "\<forall>c \<in> set a. \<not> starts r c"
  shows "search r pre (a @ b) = search r (pre @ a) b"
proof (rule search_skip, intro allI impI)
  fix k assume k: "k < length a"
  then have "drop k (a @ b) = a ! k # drop (Suc k) a @ b"
    by (simp add: Cons_nth_drop_Suc)
  moreover from k assms(2) have "\<not> starts r (a ! k)" by simp
  ultimately show "rmatch r (drop k (a @ b), []) = []"
    using rmatch_needs_start[OF assms(1), of "drop k (a @ b)" "[]"] by simp
qed

lemma tag_of_body:
  assumes "isVersion t"
  shows "\<exists>cs ms. match_all versionRegex (releaseLine t @ rest) = (t, cs) # ms"
proof -
  from assms obtain cs sts where m: "rmatch versionRegex (t, []) = ([], cs) # sts"
    by (auto simp: isVersion_def split: list.splits)
  let ?a = "''**Release Version:** `''"
  let ?b = "CHR 0x60 # rest"
  have "\<not> accepts versionRegex (hd ?b)" by (simp add: accepts_versionRegex)
  from rmatch_stops[of ?b versionRegex t "[]"] this m
  have hit: "rmatch versionRegex (t @ ?b, []) = (?b, cs) # map (followed ?b) sts" by simp
  have n: "\<not> nullable versionRegex" by (simp add: versionRegex_def Plus_def)
  have s: "\<forall>c \<in> set ?a. \<not> starts versionRegex c"
    by (simp add: versionRegex_def Plus_def digits_def)
  from search_skip_start[OF n s, of "[]" "t @ ?b"] search_hit[OF hit, of ?a]
  have "search versionRegex [] (releaseLine t @ rest) = Some (?a, t, cs, ?b)"
    by (simp add: releaseLine_def)
  from match_all_first[OF this] show ?thesis by blast
qed

subsection \<open>The three check boxes of the deployer\<close>

lemma needs_flag:
  "needs (seqs [Chr CHR ''-'', Cls whitespace, str ''[x]'', Cls whitespace, str L]) L 6"
proof -
  have "needs (Seq (str L) Eps) L 0" by (rule needs_str)
  from needs_Chr[OF needs_Cls[OF needs_after[OF needs_Cls[OF this], of "''[x]''"]]]
  show ?thesis by (simp del: str_Cons add: eval_nat_numeral)
qed

lemma flag_read:
  assumes R: "R = seqs [Chr CHR ''-'', Cls whitespace, str ''[x]'', Cls whitespace, str L]"
    and L: "lineFree L" "L \<noteq> []" and A: "lacks L A" and B: "lacks L B"
    and h: "prefix (''- ['' @ box b @ ''] '' @ L) h" "occs L h = [6]"
  shows "test R (linesText (A @ h # B)) = b"
proof (cases b)
  case True
  from h(1) obtain tail where t: "h = ''- [x] '' @ L @ tail" by (auto simp: prefix_def box_def True)
  have "rmatch R (drop (length (linesText A)) (linesText (A @ h # B)), []) \<noteq> []"
    by (simp add: R t rmatch.simps(2,4,5) rmatch_str whitespace_def del: str_Cons)
  moreover have "length (linesText A) \<le> length (linesText (A @ h # B))" by simp
  ultimately show ?thesis using True unfolding test_iff by blast
next
  case False
  from h(1) obtain tail where t: "h = ''- [ ] '' @ L @ tail" by (auto simp: prefix_def box_def False)
  have miss: "rmatch R (h @ CR # LF # linesText B, []) = []"
    by (simp add: R t rmatch.simps(2,4,5) rmatch_str whitespace_def del: str_Cons)
  have only: "k = length (linesText A) + 6"
    if "prefix L (drop k (linesText A @ h @ CR # LF # linesText B))" for k
  proof -
    from that have "prefix L (drop k (linesText (A @ h # B)))" by simp
    from occurrence_unique[OF L A B occs_single[OF L(2) h(2)] this] show ?thesis .
  qed
  have n: "needs R L 6" unfolding R by (rule needs_flag)
  from search_nowhere[OF n only miss, of "[]"]
  have "search R [] (linesText (A @ h # B)) = None" by simp
  with False show ?thesis by (simp add: test_def)
qed

lemma flag_lines:
  "prefix (''- ['' @ box b @ ''] '' @ ''I checked the [App Timing Dashboard]'') (timingLine b)"
  "prefix (''- ['' @ box b @ ''] '' @ ''I checked [Firebase Crashlytics]'') (firebaseLine b)"
  "prefix (''- ['' @ box b @ ''] '' @ ''I checked [GitHub Status]'') (statusLine b)"
  by (cases b; simp add: timingLine_def firebaseLine_def statusLine_def box_def)+

subsection \<open>Lines without a given heading\<close>

lemma spaced_not_Nil: "spaced c L \<Longrightarrow> \<not> sublist L []"
  by (auto simp: spaced_def)

lemma lacks_lines:
  assumes sp: "spaced c L" "c \<notin> set ''[]h-@V`''"
    and tag: "noSpace tag'" and us: "\<forall>URL \<in> set main. validPR URL"
    and es: "\<forall>e \<in> set es. validPR (fst e) \<and> validLogin (snd e)"
    and bs: "\<forall>URL \<in> set bs. validIssueOrPR URL"
  shows "\<not> sublist L compareLine \<Longrightarrow> lacks L (headerLines tag')"
    and "\<not> sublist L PRHeading \<Longrightarrow> lacks L (PRLines main v1)"
    and "\<not> sublist L internalQAHeading \<Longrightarrow> lacks L (internalQALines es v2)"
    and "\<not> sublist L deployBlockersHeading \<Longrightarrow> lacks L (deployBlockerLines bs v3)"
    and "lacks L (map (PRLine v1) main)"
    and "lacks L (map (internalQALine v2) es)"
    and "lacks L (map (PRLine v3) bs)"
    and "\<not> sublist L []"
proof -
  from sp(2) have c: "c \<notin> set ''[]h''" "c \<notin> set ''[]h-@''" "c \<notin> set ''V`''" by auto
  show m: "lacks L (map (PRLine v1) main)" by (rule lacks_PRLines[OF sp(1) c(1) us])
  show e: "lacks L (map (internalQALine v2) es)" by (rule lacks_internalQALines[OF sp(1) c(2) es])
  show b: "lacks L (map (PRLine v3) bs)" by (rule lacks_blockerLines[OF sp(1) c(1) bs])
  show n: "\<not> sublist L []" by (rule spaced_not_Nil[OF sp(1)])
  show "\<not> sublist L compareLine \<Longrightarrow> lacks L (headerLines tag')"
    using lacks_releaseLine[OF sp(1) c(3) tag] by (simp add: headerLines_def)
  show "\<not> sublist L PRHeading \<Longrightarrow> lacks L (PRLines main v1)"
    using m n by (simp add: PRLines_def)
  show "\<not> sublist L internalQAHeading \<Longrightarrow> lacks L (internalQALines es v2)"
    using e n by (simp add: internalQALines_def)
  show "\<not> sublist L deployBlockersHeading \<Longrightarrow> lacks L (deployBlockerLines bs v3)"
    using b n by (simp add: deployBlockerLines_def)
qed

subsection \<open>The generated body, line by line\<close>

definition bodyLines ::
  "string \<Rightarrow> string list \<Rightarrow> (string \<Rightarrow> bool) \<Rightarrow> (string \<times> string) list \<Rightarrow> (string \<Rightarrow> bool)
     \<Rightarrow> string list \<Rightarrow> (string \<Rightarrow> bool) \<Rightarrow> bool \<Rightarrow> bool \<Rightarrow> bool \<Rightarrow> string list" where
  "bodyLines tag' main v1 es v2 bs v3 t f g =
     headerLines tag' @ PRLines main v1 @ internalQALines es v2 @ deployBlockerLines bs v3
     @ verificationLines t f g"

definition wellFormed :: "string \<Rightarrow> string list \<Rightarrow> (string \<times> string) list \<Rightarrow> string list \<Rightarrow> bool" where
  "wellFormed tag' main es bs =
     (isVersion tag'
      \<and> (\<forall>URL \<in> set main. validPR URL)
      \<and> (\<forall>(URL, merger) \<in> set es. validPR URL \<and> CHR ''-'' \<notin> set URL \<and> validLogin merger)
      \<and> (\<forall>URL \<in> set bs. validIssueOrPR URL))"

lemma wellFormedD:
  assumes "wellFormed tag' main es bs"
  shows "isVersion tag'" "noSpace tag'" "\<forall>URL \<in> set main. validPR URL"
    "\<forall>e \<in> set es. validPR (fst e) \<and> validLogin (snd e)"
    "\<forall>(URL, merger) \<in> set es. validPR URL \<and> CHR ''-'' \<notin> set URL \<and> validLogin merger"
    "\<forall>URL \<in> set bs. validIssueOrPR URL"
  using assms by (auto simp: wellFormed_def isVersion_noSpace)

lemma deployBlockersText_lines:
  "(deployBlockers' = []) = (bs = []) \<Longrightarrow>
   deployBlockersText deployBlockers' bs rs = linesText (deployBlockerLines bs (contains rs))"
  by (simp add: deployBlockersText_def deployBlockerLines_def deployBlockersHeading_def CRLF_def
      linesText_map PRLine_def)

lemma body_lines:
  assumes "(deployBlockers' = []) = (bs = [])"
  shows "headerText tag' @ PRListText main vs @ internalQAText internalQA rs
         @ deployBlockersText deployBlockers' bs rb @ verificationsText t f g
         = linesText (bodyLines tag' main (contains vs) (entries internalQA) (contains rs)
                        bs (contains rb) t f g)"
  by (simp add: bodyLines_def headerText_lines PRListText_lines internalQAText_lines
      deployBlockersText_lines[OF assms] verificationsText_lines)

lemma PR_literal_lacks:
  assumes "wellFormed tag' main es bs"
  shows "lacks ''pull requests:**'' (headerLines tag')"
    "lacks ''pull requests:**'' (internalQALines es v2)"
    "lacks ''pull requests:**'' (deployBlockerLines bs v3)"
    "lacks ''pull requests:**'' (verificationLines t f g)"
proof -
  note w = wellFormedD[OF assms]
  note l = lacks_lines[OF spaced_literals(1) _ w(2,3,4,6)]
  show "lacks ''pull requests:**'' (headerLines tag')" by (rule l(1)) (simp_all add: PR_literal_short)
  show "lacks ''pull requests:**'' (internalQALines es v2)"
    by (rule l(3)) (simp_all add: PR_literal_short)
  show "lacks ''pull requests:**'' (deployBlockerLines bs v3)"
    by (rule l(4)) (simp_all add: PR_literal_short)
  show "lacks ''pull requests:**'' (verificationLines t f g)"
    by (simp add: verificationLines_def PR_literal_short PR_literal_long)
qed

lemma internalQA_literal_lacks:
  assumes "wellFormed tag' main es bs"
  shows "lacks ''Internal QA:**'' (headerLines tag')"
    "lacks ''Internal QA:**'' (PRLines main v1)"
    "lacks ''Internal QA:**'' (deployBlockerLines bs v3)"
    "lacks ''Internal QA:**'' (verificationLines t f g)"
proof -
  note w = wellFormedD[OF assms]
  note l = lacks_lines[OF spaced_literals(2) _ w(2,3,4,6)]
  show "lacks ''Internal QA:**'' (headerLines tag')"
    by (rule l(1)) (simp_all add: internalQA_literal_short)
  show "lacks ''Internal QA:**'' (PRLines main v1)"
    by (rule l(2)) (simp_all add: internalQA_literal_short)
  show "lacks ''Internal QA:**'' (deployBlockerLines bs v3)"
    by (rule l(4)) (simp_all add: internalQA_literal_short)
  show "lacks ''Internal QA:**'' (verificationLines t f g)"
    by (simp add: verificationLines_def internalQA_literal_short internalQA_literal_long)
qed

lemma deployBlockers_literal_lacks:
  assumes "wellFormed tag' main es bs"
  shows "lacks ''Deploy Blockers:**'' (headerLines tag')"
    "lacks ''Deploy Blockers:**'' (PRLines main v1)"
    "lacks ''Deploy Blockers:**'' (internalQALines es v2)"
    "lacks ''Deploy Blockers:**'' (verificationLines t f g)"
proof -
  note w = wellFormedD[OF assms]
  note l = lacks_lines[OF spaced_literals(3) _ w(2,3,4,6)]
  show "lacks ''Deploy Blockers:**'' (headerLines tag')"
    by (rule l(1)) (simp_all add: deployBlockers_literal_short)
  show "lacks ''Deploy Blockers:**'' (PRLines main v1)"
    by (rule l(2)) (simp_all add: deployBlockers_literal_short)
  show "lacks ''Deploy Blockers:**'' (internalQALines es v2)"
    by (rule l(3)) (simp_all add: deployBlockers_literal_short)
  show "lacks ''Deploy Blockers:**'' (verificationLines t f g)"
    by (simp add: verificationLines_def deployBlockers_literal_short deployBlockers_literal_long)
qed

lemma flag_literal_lacks:
  assumes "wellFormed tag' main es bs" and sp: "spaced CHR ''c'' L"
    and fixed: "\<not> sublist L compareLine" "\<not> sublist L PRHeading" "\<not> sublist L internalQAHeading"
      "\<not> sublist L deployBlockersHeading"
  shows "lacks L (headerLines tag' @ PRLines main v1 @ internalQALines es v2
                  @ deployBlockerLines bs v3)"
proof -
  note w = wellFormedD[OF assms(1)]
  note l = lacks_lines[OF sp _ w(2,3,4,6)]
  have "lacks L (headerLines tag')" by (rule l(1)) (simp_all add: fixed)
  moreover have "lacks L (PRLines main v1)" by (rule l(2)) (simp_all add: fixed)
  moreover have "lacks L (internalQALines es v2)" by (rule l(3)) (simp_all add: fixed)
  moreover have "lacks L (deployBlockerLines bs v3)" by (rule l(4)) (simp_all add: fixed)
  ultimately show ?thesis by simp
qed

subsection \<open>What is read from the generated body\<close>

lemma sortBy_Nil [simp]: "sortBy f [] = []"
  by (simp add: sortBy_def)

lemma PRList_of_body:
  assumes w: "wellFormed tag' main es bs"
  shows "getStagingDeployCashPRList (linesText (bodyLines tag' main v1 es v2 bs v3 t f g))
         = sortBy number (map (\<lambda>URL. \<lparr>url = URL, number = criterion getPullRequestNumberFromURL URL,
                                        isVerified = v1 URL\<rparr>) main)"
proof (cases "main = []")
  case True
  have "lacks ''pull requests:**'' (bodyLines tag' main v1 es v2 bs v3 t f g)"
    using PR_literal_lacks[OF w] by (simp add: bodyLines_def PRLines_def True)
  from section_missing[OF literals_lineFree(1) _ this] True show ?thesis
    by (simp add: no_PR_section)
next
  case False
  let ?B = "internalQALines es v2 @ deployBlockerLines bs v3 @ verificationLines t f g"
  have b: "bodyLines tag' main v1 es v2 bs v3 t f g
           = (headerLines tag' @ [[]]) @ PRHeading # map (PRLine v1) main @ [] # [] # ?B"
    by (simp add: bodyLines_def PRLines_def False)
  have A: "lacks ''pull requests:**'' (headerLines tag' @ [[]])"
    using PR_literal_lacks(1)[OF w] by simp
  have B: "lacks ''pull requests:**'' ?B" using PR_literal_lacks(2-4)[OF w] by simp
  from PR_section_found[OF A B False wellFormedD(3)[OF w], of v1] obtain m where
    "match_array PR_LIST_SECTION (linesText (bodyLines tag' main v1 es v2 bs v3 t f g))
       = Some [m, Some (linesText (map (PRLine v1) main))]"
    unfolding b by blast
  from PRList_read[OF this wellFormedD(3)[OF w]] show ?thesis .
qed

lemma internalQA_of_body:
  assumes w: "wellFormed tag' main es bs"
  shows "getStagingDeployCashInternalQA (linesText (bodyLines tag' main v1 es v2 bs v3 t f g))
         = sortBy number (map (\<lambda>(URL, merger). \<lparr>url = URL,
                                        number = criterion getPullRequestNumberFromURL URL,
                                        isResolved = v2 URL\<rparr>) es)"
proof (cases "es = []")
  case True
  have "lacks ''Internal QA:**'' (bodyLines tag' main v1 es v2 bs v3 t f g)"
    using internalQA_literal_lacks[OF w] by (simp add: bodyLines_def internalQALines_def True)
  from section_missing[OF literals_lineFree(2) _ this] True show ?thesis
    by (simp add: no_internalQA_section)
next
  case False
  let ?A = "headerLines tag' @ PRLines main v1"
  let ?B = "[] # deployBlockerLines bs v3 @ verificationLines t f g"
  have b: "bodyLines tag' main v1 es v2 bs v3 t f g
           = ?A @ internalQAHeading # map (internalQALine v2) es @ [] # ?B"
    by (simp add: bodyLines_def internalQALines_def False)
  have A: "lacks ''Internal QA:**'' ?A" using internalQA_literal_lacks(1,2)[OF w] by simp
  have B: "lacks ''Internal QA:**'' ?B" using internalQA_literal_lacks(3,4)[OF w] by simp
  from internalQA_section_found[OF A B False wellFormedD(4)[OF w], of v2] obtain m where
    "match_array INTERNAL_QA_SECTION (linesText (bodyLines tag' main v1 es v2 bs v3 t f g))
       = Some [m, Some (linesText (map (internalQALine v2) es))]"
    unfolding b by blast
  from internalQA_read[OF this wellFormedD(5)[OF w]] show ?thesis .
qed

lemma deployBlockers_of_body:
  assumes w: "wellFormed tag' main es bs"
  shows "getStagingDeployCashDeployBlockers (linesText (bodyLines tag' main v1 es v2 bs v3 t f g))
         = sortBy number (map (\<lambda>URL. \<lparr>url = URL,
                                        number = criterion getIssueOrPullRequestNumberFromURL URL,
                                        isResolved = v3 URL\<rparr>) bs)"
proof (cases "bs = []")
  case True
  have "lacks ''Deploy Blockers:**'' (bodyLines tag' main v1 es v2 bs v3 t f g)"
    using deployBlockers_literal_lacks[OF w]
    by (simp add: bodyLines_def deployBlockerLines_def True)
  from section_missing[OF literals_lineFree(3) _ this] True show ?thesis
    by (simp add: no_blocker_section)
next
  case False
  let ?A = "headerLines tag' @ PRLines main v1 @ internalQALines es v2"
  let ?B = "[] # verificationLines t f g"
  have b: "bodyLines tag' main v1 es v2 bs v3 t f g
           = ?A @ deployBlockersHeading # map (PRLine v3) bs @ [] # ?B"
    by (simp add: bodyLines_def deployBlockerLines_def False)
  have A: "lacks ''Deploy Blockers:**'' ?A" using deployBlockers_literal_lacks(1-3)[OF w] by simp
  have B: "lacks ''Deploy Blockers:**'' ?B" using deployBlockers_literal_lacks(4)[OF w] by simp
  from deployBlockers_section_found[OF A B False wellFormedD(6)[OF w], of v3] obtain m where
    "match_array DEPLOY_BLOCKER_SECTION (linesText (bodyLines tag' main v1 es v2 bs v3 t f g))
       = Some [m, Some (linesText (map (PRLine v3) bs))]"
    unfolding b by blast
  from deployBlockers_read[OF this wellFormedD(6)[OF w]] show ?thesis .
qed

lemma flags_of_body:
  assumes w: "wellFormed tag' main es bs"
  shows "test TIMING_DASHBOARD_CHECKED (linesText (bodyLines tag' main v1 es v2 bs v3 t f g)) = t"
    and "test FIREBASE_CHECKED (linesText (bodyLines tag' main v1 es v2 bs v3 t f g)) = f"
    and "test GH_STATUS_CHECKED (linesText (bodyLines tag' main v1 es v2 bs v3 t f g)) = g"
proof -
  let ?P = "headerLines tag' @ PRLines main v1 @ internalQALines es v2 @ deployBlockerLines bs v3"
  let ?T = "''I checked the [App Timing Dashboard]''"
  let ?F = "''I checked [Firebase Crashlytics]''"
  let ?G = "''I checked [GitHub Status]''"
  have PT: "lacks ?T ?P"
    by (rule flag_literal_lacks[OF w spaced_literals(4)]) (simp_all add: timing_literal_short)
  have PF: "lacks ?F ?P"
    by (rule flag_literal_lacks[OF w spaced_literals(5)]) (simp_all add: firebase_literal_short)
  have PG: "lacks ?G ?P"
    by (rule flag_literal_lacks[OF w spaced_literals(6)]) (simp_all add: status_literal_short)
  have bt: "bodyLines tag' main v1 es v2 bs v3 t f g
            = (?P @ [verificationsHeading]) @ timingLine t # [firebaseLine f, statusLine g, [], ccLine]"
    by (simp add: bodyLines_def verificationLines_def)
  have bf: "bodyLines tag' main v1 es v2 bs v3 t f g
            = (?P @ [verificationsHeading, timingLine t]) @ firebaseLine f # [statusLine g, [], ccLine]"
    by (simp add: bodyLines_def verificationLines_def)
  have bg: "bodyLines tag' main v1 es v2 bs v3 t f g
            = (?P @ [verificationsHeading, timingLine t, firebaseLine f]) @ statusLine g # [[], ccLine]"
    by (simp add: bodyLines_def verificationLines_def)
  have AT: "lacks ?T (?P @ [verificationsHeading])" using PT by (simp add: timing_literal_short)
  have BT: "lacks ?T [firebaseLine f, statusLine g, [], ccLine]"
    by (simp add: timing_literal_short timing_literal_long)
  have AF: "lacks ?F (?P @ [verificationsHeading, timingLine t])"
    using PF by (simp add: firebase_literal_short firebase_literal_long)
  have BF: "lacks ?F [statusLine g, [], ccLine]"
    by (simp add: firebase_literal_short firebase_literal_long)
  have AG: "lacks ?G (?P @ [verificationsHeading, timingLine t, firebaseLine f])"
    using PG by (simp add: status_literal_short status_literal_long)
  have BG: "lacks ?G [[], ccLine]" by (simp add: status_literal_short)
  show "test TIMING_DASHBOARD_CHECKED (linesText (bodyLines tag' main v1 es v2 bs v3 t f g)) = t"
    unfolding bt
    by (rule flag_read[OF TIMING_DASHBOARD_CHECKED_def literals_lineFree(4) _ AT BT flag_lines(1)
          timing_literal_own]) simp
  show "test FIREBASE_CHECKED (linesText (bodyLines tag' main v1 es v2 bs v3 t f g)) = f"
    unfolding bf
    by (rule flag_read[OF FIREBASE_CHECKED_def literals_lineFree(5) _ AF BF flag_lines(2)
          firebase_literal_own]) simp
  show "test GH_STATUS_CHECKED (linesText (bodyLines tag' main v1 es v2 bs v3 t f g)) = g"
    unfolding bg
    by (rule flag_read[OF GH_STATUS_CHECKED_def literals_lineFree(6) _ AG BG flag_lines(3)
          status_literal_own]) simp
qed

lemma tag_of_bodyLines:
  assumes w: "wellFormed tag' main es bs"
  shows "\<exists>cs ms. match_all versionRegex (linesText (bodyLines tag' main v1 es v2 bs v3 t f g))
                 = (tag', cs) # ms"
proof -
  have "\<exists>rest. linesText (bodyLines tag' main v1 es v2 bs v3 t f g) = releaseLine tag' @ rest"
    by (simp add: bodyLines_def headerLines_def)
  then obtain rest where
    "linesText (bodyLines tag' main v1 es v2 bs v3 t f g) = releaseLine tag' @ rest" ..
  with tag_of_body[OF wellFormedD(1)[OF w], of rest] show ?thesis by simp
qed

lemma data_of_body:
  assumes w: "wellFormed tag' main es bs"
    and n: "getIssueOrPullRequestNumberFromURL (url ticket) = Inr n"
    and b: "body ticket = linesText (bodyLines tag' main v1 es v2 bs v3 t f g)"
  shows "getStagingDeployCashData ticket
         = Inr \<lparr>url = url ticket, number = n, title = title ticket, labels = labels ticket,
                PRList = sortBy number
                  (map (\<lambda>URL. \<lparr>url = URL, number = criterion getPullRequestNumberFromURL URL,
                                isVerified = v1 URL\<rparr>) main),
                deployBlockers = sortBy number
                  (map (\<lambda>URL. \<lparr>url = URL,
                                number = criterion getIssueOrPullRequestNumberFromURL URL,
                                isResolved = v3 URL\<rparr>) bs),
                internalQAPRList = sortBy number
                  (map (\<lambda>(URL, merger). \<lparr>url = URL,
                                number = criterion getPullRequestNumberFromURL URL,
                                isResolved = v2 URL\<rparr>) es),
                isTimingDashboardChecked = t, isFirebaseChecked = f, isGHStatusChecked = g,
                tag = tag'\<rparr>"
proof -
  from tag_of_bodyLines[OF w, of v1 v2 v3 t f g] obtain cs ms where
    m: "match_all versionRegex (body ticket) = (tag', cs) # ms" unfolding b by blast
  show ?thesis
    unfolding getStagingDeployCashData_def m n
    by (simp add: b PRList_of_body[OF w] internalQA_of_body[OF w] deployBlockers_of_body[OF w]
        flags_of_body[OF w] isVersion_no_backtick[OF wellFormedD(1)[OF w]])
qed

lemma mapE_success:
  "\<forall>x \<in> set xs. \<exists>n. f x = Inr n \<Longrightarrow> \<exists>ns. mapE f xs = Inr ns"
  by (induction xs) auto

lemma sortByE_success:
  assumes "\<forall>x \<in> set xs. \<exists>n. f x = Inr n"
  shows "sortByE f xs = Inr (sortBy (criterion f) xs)"
  using mapE_success[OF assms] by (auto simp: sortByE_def)

lemma validPR_number: "validPR URL \<Longrightarrow> \<exists>n. getPullRequestNumberFromURL URL = Inr n"
  by (simp add: validPR_def getPullRequestNumberFromURL_begins)

lemma validIssueOrPR_number:
  "validIssueOrPR URL \<Longrightarrow> \<exists>n. getIssueOrPullRequestNumberFromURL URL = Inr n"
  by (simp add: validIssueOrPR_def getIssueOrPullRequestNumberFromURL_begins)

lemma sortBy_sorted_map:
  assumes "\<And>x. k (h x) = c x"
  shows "sortBy k (map h (sortBy c xs)) = map h (sortBy c xs)"
proof -
  have "k \<circ> h = c" by (rule ext) (simp add: assms)
  then have "sorted (map k (map h (sort_key c xs)))" by simp
  then show ?thesis unfolding sortBy_def by (rule sort_key_id_if_sorted)
qed

text \<open>
  C1, as the code has it. Let the tag be a version string, the listed pull requests and
  deploy blockers URLs of the platform without white space, and the fetched internal QA
  pull requests have URLs without white space or hyphen and mergers without white space
  or slash. Then the body is built, and the ticket with that body is read back as
  follows. The pull request list is the list of the listed URLs that are not URLs of
  internal QA pull requests, each once, in ascending order of their numbers, and an entry
  is verified exactly when its URL is in the verified list or belongs to a fetched record
  whose title carries the No QA marker. The deploy blockers are the listed blockers, each
  once, in ascending order, resolved exactly when in the resolved list. The internal QA
  list holds the URLs of the map of internal QA pull requests in ascending order of their
  numbers, resolved exactly when in the list of resolved ones. The three check boxes and
  the tag are those that were written.
\<close>

theorem round_trip:
  assumes qa: "internalQAPRMap C data = Inr internalQA"
    and tag: "isVersion tag'"
    and prs: "\<forall>URL \<in> set PRList'. validPR URL"
    and blk: "\<forall>URL \<in> set deployBlockers'. validIssueOrPR URL"
    and iqa: "\<forall>(URL, merger) \<in> set (entries internalQA).
                validPR URL \<and> CHR ''-'' \<notin> set URL \<and> validLogin merger"
    and num: "getIssueOrPullRequestNumberFromURL (url ticket) = Inr n"
  shows "\<exists>generated.
      buildIssue C data tag' PRList' verifiedPRList deployBlockers' resolvedDeployBlockers
        resolvedInternalQAPRs t f g = Inr generated
    \<and> getStagingDeployCashData (ticket\<lparr>body := issueBody generated\<rparr>)
      = Inr \<lparr>url = url ticket, number = n, title = title ticket, labels = labels ticket,
             PRList =
               map (\<lambda>URL. \<lparr>url = URL, number = criterion getPullRequestNumberFromURL URL,
                            isVerified = (URL \<in> set verifiedPRList \<or> URL \<in> set (noQAPRs data))\<rparr>)
                   (sortBy (criterion getPullRequestNumberFromURL)
                      (unique (difference PRList' (keys internalQA)))),
             deployBlockers =
               map (\<lambda>URL. \<lparr>url = URL, number = criterion getIssueOrPullRequestNumberFromURL URL,
                            isResolved = (URL \<in> set resolvedDeployBlockers)\<rparr>)
                   (sortBy (criterion getIssueOrPullRequestNumberFromURL) (unique deployBlockers')),
             internalQAPRList =
               sortBy number
                 (map (\<lambda>(URL, merger).
                         \<lparr>url = URL, number = criterion getPullRequestNumberFromURL URL,
                          isResolved = (URL \<in> set resolvedInternalQAPRs)\<rparr>)
                      (entries internalQA)),
             isTimingDashboardChecked = t, isFirebaseChecked = f, isGHStatusChecked = g,
             tag = tag'\<rparr>"
proof -
  let ?main = "sortBy (criterion getPullRequestNumberFromURL)
                 (unique (difference PRList' (keys internalQA)))"
  let ?bs = "sortBy (criterion getIssueOrPullRequestNumberFromURL) (unique deployBlockers')"
  let ?vs = "union verifiedPRList (noQAPRs data)"
  have sm: "set ?main \<subseteq> set PRList'" by (auto simp: sortBy_def)
  have sb: "set ?bs = set deployBlockers'" by (simp add: sortBy_def)
  have m: "sortedPRList PRList' internalQA = Inr ?main"
    unfolding sortedPRList_def using prs by (intro sortByE_success) (auto intro: validPR_number)
  have b: "sortedDeployBlockers deployBlockers' = Inr ?bs"
    unfolding sortedDeployBlockers_def using blk
    by (intro sortByE_success) (auto intro: validIssueOrPR_number)
  have e: "(deployBlockers' = []) = (?bs = [])" using sb by (metis set_empty)
  let ?B = "linesText (bodyLines tag' ?main (contains ?vs) (entries internalQA)
                         (contains resolvedInternalQAPRs) ?bs (contains resolvedDeployBlockers) t f g)"
  have g: "buildIssue C data tag' PRList' verifiedPRList deployBlockers' resolvedDeployBlockers
        resolvedInternalQAPRs t f g = Inr \<lparr>issueBody = ?B, issueAssignees = valuesOf internalQA\<rparr>"
    by (simp add: buildIssue_def qa m b body_lines[OF e])
  have w: "wellFormed tag' ?main (entries internalQA) ?bs"
    unfolding wellFormed_def using tag prs blk iqa sm sb by auto
  have n': "getIssueOrPullRequestNumberFromURL (url (ticket\<lparr>body := ?B\<rparr>)) = Inr n"
    using num by simp
  have "getStagingDeployCashData (ticket\<lparr>body := ?B\<rparr>)
      = Inr \<lparr>url = url ticket, number = n, title = title ticket, labels = labels ticket,
             PRList =
               map (\<lambda>URL. \<lparr>url = URL, number = criterion getPullRequestNumberFromURL URL,
                            isVerified = (URL \<in> set verifiedPRList \<or> URL \<in> set (noQAPRs data))\<rparr>)
                   ?main,
             deployBlockers =
               map (\<lambda>URL. \<lparr>url = URL, number = criterion getIssueOrPullRequestNumberFromURL URL,
                            isResolved = (URL \<in> set resolvedDeployBlockers)\<rparr>)
                   ?bs,
             internalQAPRList =
               sortBy number
                 (map (\<lambda>(URL, merger).
                         \<lparr>url = URL, number = criterion getPullRequestNumberFromURL URL,
                          isResolved = (URL \<in> set resolvedInternalQAPRs)\<rparr>)
                      (entries internalQA)),
             isTimingDashboardChecked = t, isFirebaseChecked = f, isGHStatusChecked = g,
             tag = tag'\<rparr>"
    unfolding data_of_body[OF w n', of "contains ?vs" "contains resolvedInternalQAPRs"
        "contains resolvedDeployBlockers" t f g, simplified]
    by (simp add: sortBy_sorted_map contains_def union_def)
  with g show ?thesis by simp
qed

lemma version_1234: "isVersion ''1.2.3-4''"
  by code_simp

lemma valid_pulls:
  "validPR App_pull_100" "validPR App_pull_101" "validPR App_pull_102"
  "validPR App_pull_9641" "validPR App_pull_9642"
  unfolding App_pull_100_def App_pull_101_def App_pull_102_def App_pull_9641_def App_pull_9642_def
  by code_simp+

lemma valid_blockers: "validIssueOrPR App_issues_9" "validIssueOrPR App_pull_7"
  unfolding App_issues_9_def App_pull_7_def by code_simp+

lemma valid_mergers: "validLogin ''octocat''" "validLogin ''mountiny''" "validLogin ''PauloGasparSv''"
  by code_simp+

lemma no_hyphen:
  "CHR ''-'' \<notin> set App_pull_100" "CHR ''-'' \<notin> set App_pull_9641" "CHR ''-'' \<notin> set App_pull_9642"
  by (simp_all add: App_pull_100_def App_pull_9641_def App_pull_9642_def)

lemma map_9642_9641:
  "internalQAPRMap expensify [internal_9642, internal_9641]
     = Inr [(App_pull_9642, ''mountiny''), (App_pull_9641, ''PauloGasparSv'')]"
  by (simp add: internalQAPRMap_def expensify_def internal_9641_def internal_9642_def
      distinct_App_more distinct_App_more[symmetric])

lemma entries_9642_9641:
  "entries [(App_pull_9642, ''mountiny''), (App_pull_9641, ''PauloGasparSv'')]
     = [(App_pull_9642, ''mountiny''), (App_pull_9641, ''PauloGasparSv'')]"
  by (simp add: entries_def no_index_App_more)

lemma distinct_pulls:
  "App_pull_102 \<noteq> App_pull_9641" "App_pull_102 \<noteq> App_pull_9642"
  "App_pull_101 \<noteq> App_pull_9641" "App_pull_101 \<noteq> App_pull_9642"
  "App_issues_9 \<noteq> App_pull_7"
  by (simp_all add: App_pull_101_def App_pull_102_def App_pull_9641_def App_pull_9642_def
      App_issues_9_def App_pull_7_def)

theorem round_trip_witness:
  "internalQAPRMap expensify [internal_9642, internal_9641]
     = Inr [(App_pull_9642, ''mountiny''), (App_pull_9641, ''PauloGasparSv'')]
   \<and> isVersion ''1.2.3-4''
   \<and> validPR App_pull_102 \<and> validPR App_pull_101 \<and> validPR App_pull_9641
   \<and> validIssueOrPR App_issues_9 \<and> validIssueOrPR App_pull_7
   \<and> validPR App_pull_9642 \<and> CHR ''-'' \<notin> set App_pull_9642 \<and> validLogin ''mountiny''
   \<and> CHR ''-'' \<notin> set App_pull_9641 \<and> validLogin ''PauloGasparSv''
   \<and> getIssueOrPullRequestNumberFromURL (url bare_ticket) = Inr 123
   \<and> (\<exists>generated.
        buildIssue expensify [internal_9642, internal_9641] ''1.2.3-4''
          [App_pull_102, App_pull_101, App_pull_9641, App_pull_102] [App_pull_102]
          [App_issues_9, App_pull_7] [App_pull_7] [App_pull_9641] True False True
        = Inr generated
      \<and> getStagingDeployCashData (bare_ticket\<lparr>body := issueBody generated\<rparr>)
        = Inr \<lparr>url = url bare_ticket, number = 123, title = title bare_ticket,
               labels = labels bare_ticket,
               PRList = [\<lparr>url = App_pull_101, number = 101, isVerified = False\<rparr>,
                         \<lparr>url = App_pull_102, number = 102, isVerified = True\<rparr>],
               deployBlockers = [\<lparr>url = App_pull_7, number = 7, isResolved = True\<rparr>,
                                 \<lparr>url = App_issues_9, number = 9, isResolved = False\<rparr>],
               internalQAPRList = [\<lparr>url = App_pull_9641, number = 9641, isResolved = True\<rparr>,
                                   \<lparr>url = App_pull_9642, number = 9642, isResolved = False\<rparr>],
               isTimingDashboardChecked = True, isFirebaseChecked = False,
               isGHStatusChecked = True, tag = ''1.2.3-4''\<rparr>)"
proof -
  have prs: "\<forall>URL \<in> set [App_pull_102, App_pull_101, App_pull_9641, App_pull_102]. validPR URL"
    by (simp add: valid_pulls)
  have blk: "\<forall>URL \<in> set [App_issues_9, App_pull_7]. validIssueOrPR URL"
    by (simp add: valid_blockers)
  have iqa: "\<forall>(URL, merger)
               \<in> set (entries [(App_pull_9642, ''mountiny''), (App_pull_9641, ''PauloGasparSv'')]).
             validPR URL \<and> CHR ''-'' \<notin> set URL \<and> validLogin merger"
    by (simp add: entries_9642_9641 valid_pulls valid_mergers no_hyphen)
  have num: "getIssueOrPullRequestNumberFromURL (url bare_ticket) = Inr 123"
    by (simp add: bare_ticket_def bare_ticket_number)
  have n: "noQAPRs [internal_9642, internal_9641] = []"
    by (simp add: noQAPRs_def internal_9641_def internal_9642_def plain_titles)
  have k: "keys [(App_pull_9642, ''mountiny''), (App_pull_9641, ''PauloGasparSv'')]
           = [App_pull_9642, App_pull_9641]"
    by (simp add: keys_def entries_9642_9641)
  have c: "criterion getPullRequestNumberFromURL App_pull_101 = 101"
    "criterion getPullRequestNumberFromURL App_pull_102 = 102"
    "criterion getPullRequestNumberFromURL App_pull_9641 = 9641"
    "criterion getPullRequestNumberFromURL App_pull_9642 = 9642"
    "criterion getIssueOrPullRequestNumberFromURL App_issues_9 = 9"
    "criterion getIssueOrPullRequestNumberFromURL App_pull_7 = 7"
    by (simp_all add: criterion_def number_App_pull_101 number_App_pull_102 number_App_pull_9641
        number_App_pull_9642 number_App_issues_9 number_App_pull_7)
  from round_trip[OF map_9642_9641 version_1234 prs blk iqa num,
      of "[App_pull_102]" "[App_pull_7]" "[App_pull_9641]" True False True]
  have "\<exists>generated.
        buildIssue expensify [internal_9642, internal_9641] ''1.2.3-4''
          [App_pull_102, App_pull_101, App_pull_9641, App_pull_102] [App_pull_102]
          [App_issues_9, App_pull_7] [App_pull_7] [App_pull_9641] True False True
        = Inr generated
      \<and> getStagingDeployCashData (bare_ticket\<lparr>body := issueBody generated\<rparr>)
        = Inr \<lparr>url = url bare_ticket, number = 123, title = title bare_ticket,
               labels = labels bare_ticket,
               PRList = [\<lparr>url = App_pull_101, number = 101, isVerified = False\<rparr>,
                         \<lparr>url = App_pull_102, number = 102, isVerified = True\<rparr>],
               deployBlockers = [\<lparr>url = App_pull_7, number = 7, isResolved = True\<rparr>,
                                 \<lparr>url = App_issues_9, number = 9, isResolved = False\<rparr>],
               internalQAPRList = [\<lparr>url = App_pull_9641, number = 9641, isResolved = True\<rparr>,
                                   \<lparr>url = App_pull_9642, number = 9642, isResolved = False\<rparr>],
               isTimingDashboardChecked = True, isFirebaseChecked = False,
               isGHStatusChecked = True, tag = ''1.2.3-4''\<rparr>"
    by (simp add: n k c entries_9642_9641 difference_def unique_def sortBy_def
        distinct_App distinct_App[symmetric] distinct_App_more distinct_App_more[symmetric]
        distinct_pulls distinct_pulls[symmetric])
  with map_9642_9641 version_1234 valid_pulls valid_blockers valid_mergers no_hyphen num
  show ?thesis by simp
qed

lemma sorted_101_alone:
  "sortedPRList [App_pull_100, App_pull_101] [(App_pull_100, ''octocat'')] = Inr [App_pull_101]"
  by (simp add: sortedPRList_def keys_100 difference_def unique_def sortByE_def sortBy_def
      criterion_def number_App_pull_101 distinct_App distinct_App[symmetric])

lemma noQAPRs_100_101: "noQAPRs [internal_100, noqa_101] = [App_pull_101]"
  by (simp add: noQAPRs_def internal_100_fields noqa_101_fields noqa_title plain_title)

text \<open>
  The claim C1 itself fails: neither the entries nor the states of the boxes that went in
  come back. Of the two listed pull requests, none verified, the one with the internal QA
  label is read back in the internal QA list and not in the pull request list, and the one
  whose title carries the No QA marker is read back verified.
\<close>

theorem round_trip_counterexample:
  "buildIssue expensify [internal_100, noqa_101] ''1.2.3-4'' [App_pull_100, App_pull_101]
     [] [] [] [] False False False
   = Inr \<lparr>issueBody =
            headerText ''1.2.3-4''
            @ CRLF @ ''**This release contains changes from the following pull requests:**''
            @ CRLF
            @ ''- [x] '' @ App_pull_101 @ CRLF
            @ CRLF @ CRLF
            @ ''**Internal QA:**'' @ CRLF
            @ ''- [ ] '' @ App_pull_100 @ '' - @octocat'' @ CRLF
            @ CRLF @ CRLF
            @ verificationsText False False False,
          issueAssignees = [''octocat'']\<rparr>
   \<and> getStagingDeployCashData
       (bare_ticket\<lparr>body :=
            headerText ''1.2.3-4''
            @ CRLF @ ''**This release contains changes from the following pull requests:**''
            @ CRLF
            @ ''- [x] '' @ App_pull_101 @ CRLF
            @ CRLF @ CRLF
            @ ''**Internal QA:**'' @ CRLF
            @ ''- [ ] '' @ App_pull_100 @ '' - @octocat'' @ CRLF
            @ CRLF @ CRLF
            @ verificationsText False False False\<rparr>)
     = Inr \<lparr>url = url bare_ticket, number = 123, title = title bare_ticket,
            labels = labels bare_ticket,
            PRList = [\<lparr>url = App_pull_101, number = 101, isVerified = True\<rparr>],
            deployBlockers = [],
            internalQAPRList = [\<lparr>url = App_pull_100, number = 100, isResolved = False\<rparr>],
            isTimingDashboardChecked = False, isFirebaseChecked = False,
            isGHStatusChecked = False, tag = ''1.2.3-4''\<rparr>"
proof -
  let ?T = "headerText ''1.2.3-4''
            @ PRListText [App_pull_101] (union [] (noQAPRs [internal_100, noqa_101]))
            @ internalQAText [(App_pull_100, ''octocat'')] []
            @ deployBlockersText [] [] []
            @ verificationsText False False False"
  let ?B = "headerText ''1.2.3-4''
            @ CRLF @ ''**This release contains changes from the following pull requests:**''
            @ CRLF
            @ ''- [x] '' @ App_pull_101 @ CRLF
            @ CRLF @ CRLF
            @ ''**Internal QA:**'' @ CRLF
            @ ''- [ ] '' @ App_pull_100 @ '' - @octocat'' @ CRLF
            @ CRLF @ CRLF
            @ verificationsText False False False"
  have t: "?T = ?B"
    by (simp add: PRListText_def internalQAText_def deployBlockersText_def entries_100
        noQAPRs_100_101 union_def unique_def contains_def checkbox_def)
  have g: "buildIssue expensify [internal_100, noqa_101] ''1.2.3-4'' [App_pull_100, App_pull_101]
     [] [] [] [] False False False = Inr \<lparr>issueBody = ?B, issueAssignees = [''octocat'']\<rparr>"
    unfolding buildIssue_texts[OF map_100_101 sorted_101_alone sorted_no_blockers] t
    by (simp add: valuesOf_def entries_100)
  have l: "?T = linesText (bodyLines ''1.2.3-4'' [App_pull_101]
                  (contains (union [] (noQAPRs [internal_100, noqa_101])))
                  (entries [(App_pull_100, ''octocat'')]) (contains [])
                  [] (contains []) False False False)"
    by (rule body_lines) simp
  have w: "wellFormed ''1.2.3-4'' [App_pull_101] (entries [(App_pull_100, ''octocat'')]) []"
    by (simp add: wellFormed_def version_1234 valid_pulls valid_mergers no_hyphen entries_100)
  have num: "getIssueOrPullRequestNumberFromURL (url (bare_ticket\<lparr>body := ?B\<rparr>)) = Inr 123"
    by (simp add: bare_ticket_def bare_ticket_number)
  have b: "body (bare_ticket\<lparr>body := ?B\<rparr>)
           = linesText (bodyLines ''1.2.3-4'' [App_pull_101]
                  (contains (union [] (noQAPRs [internal_100, noqa_101])))
                  (entries [(App_pull_100, ''octocat'')]) (contains [])
                  [] (contains []) False False False)"
    using l t by simp
  have "getStagingDeployCashData (bare_ticket\<lparr>body := ?B\<rparr>)
     = Inr \<lparr>url = url bare_ticket, number = 123, title = title bare_ticket,
            labels = labels bare_ticket,
            PRList = [\<lparr>url = App_pull_101, number = 101, isVerified = True\<rparr>],
            deployBlockers = [],
            internalQAPRList = [\<lparr>url = App_pull_100, number = 100, isResolved = False\<rparr>],
            isTimingDashboardChecked = False, isFirebaseChecked = False,
            isGHStatusChecked = False, tag = ''1.2.3-4''\<rparr>"
    unfolding data_of_body[OF w num b]
    by (simp add: entries_100 noQAPRs_100_101 union_def unique_def contains_def sortBy_def
        criterion_def number_App_pull_100 number_App_pull_101)
  with g show ?thesis by simp
qed

end
